theory Spec2Isabelle
  imports
    Complex_Main
    "HOL-Library.AList"
    "HOL-Library.Char_ord"
    "HOL-Library.List_Lexorder"
    "HOL-Library.Multiset"
begin

section \<open>Python values, errors and list indexing\<close>

text \<open>
  The exceptions the dataset code can raise. \<open>assert\<close> raises \<open>AssertionError\<close>,
  \<open>split\<close> raises \<open>ValueError\<close> on a descriptor of the wrong type, and the sampling
  primitives of \<open>random\<close> and \<open>numpy.random\<close> raise \<open>ValueError\<close> on an empty or too
  small population. Dictionary and list accesses raise \<open>KeyError\<close> and \<open>IndexError\<close>;
  \<open>sorted\<close> raises \<open>TypeError\<close> on labels of mixed type, and \<open>math.ceil\<close> raises
  \<open>OverflowError\<close> on an infinity and \<open>ValueError\<close> on a NaN.
\<close>

datatype error =
  AssertionError | ValueError | KeyError | IndexError | TypeError | OverflowError

text \<open>Values stored in a record: integer labels or strings (file paths, string labels).\<close>

datatype val = IntV int | StrV string

text \<open>A record is a Python \<open>dict\<close> from string keys to values, in insertion order.\<close>

type_synonym rcd = "(string \<times> val) list"

text \<open>\<open>xs[i]\<close> on a Python list: negative indices count from the end.\<close>

definition py_index :: "'a list \<Rightarrow> int \<Rightarrow> error + 'a" where
  "py_index xs i =
     (if 0 \<le> i \<and> i < int (length xs) then Inr (xs ! nat i)
      else if i < 0 \<and> - int (length xs) \<le> i then Inr (xs ! nat (int (length xs) + i))
      else Inl IndexError)"

section \<open>FEDataset.split\<close>

text \<open>
  A Python float is a finite number, an infinity or a NaN. The rounding of float
  arithmetic is the parameter \<open>fl\<close> of the functions below: \<open>fl x\<close> is the float that
  the exact result \<open>x\<close> of an operation on finite floats becomes, an infinity when \<open>x\<close>
  is beyond the largest float. Nothing proved depends on how a result is rounded or on
  where the overflow threshold lies.
\<close>

datatype pyfloat = Finite real | PosInf | NegInf | NaN

text \<open>
  The conversion of an int operand to a float, which \<open>original_size * frac\<close> performs
  on \<open>original_size\<close>: \<open>OverflowError\<close> when the int is beyond the largest float.
\<close>

definition int_to_float :: "(real \<Rightarrow> pyfloat) \<Rightarrow> int \<Rightarrow> error + real" where
  "int_to_float fl n =
     (case fl (of_int n) of
        Finite x \<Rightarrow> Inr x
      | PosInf \<Rightarrow> Inl OverflowError
      | NegInf \<Rightarrow> Inl OverflowError
      | NaN \<Rightarrow> Inl OverflowError)"

text \<open>The product of a finite float and a float, and the sum of two floats.\<close>

fun fmul :: "(real \<Rightarrow> pyfloat) \<Rightarrow> real \<Rightarrow> pyfloat \<Rightarrow> pyfloat" where
  "fmul fl x (Finite y) = fl (x * y)"
| "fmul fl x PosInf = (if x = 0 then NaN else if 0 < x then PosInf else NegInf)"
| "fmul fl x NegInf = (if x = 0 then NaN else if 0 < x then NegInf else PosInf)"
| "fmul fl x NaN = NaN"

fun fadd :: "(real \<Rightarrow> pyfloat) \<Rightarrow> pyfloat \<Rightarrow> pyfloat \<Rightarrow> pyfloat" where
  "fadd fl (Finite x) (Finite y) = fl (x + y)"
| "fadd fl (Finite x) PosInf = PosInf"
| "fadd fl (Finite x) NegInf = NegInf"
| "fadd fl (Finite x) NaN = NaN"
| "fadd fl PosInf (Finite y) = PosInf"
| "fadd fl PosInf PosInf = PosInf"
| "fadd fl PosInf NegInf = NaN"
| "fadd fl PosInf NaN = NaN"
| "fadd fl NegInf (Finite y) = NegInf"
| "fadd fl NegInf PosInf = NaN"
| "fadd fl NegInf NegInf = NegInf"
| "fadd fl NegInf NaN = NaN"
| "fadd fl NaN b = NaN"

text \<open>
  \<open>math.ceil\<close> on a float: \<open>OverflowError\<close> on an infinity (cannot convert float
  infinity to integer), \<open>ValueError\<close> on a NaN.
\<close>

definition py_ceil :: "pyfloat \<Rightarrow> error + int" where
  "py_ceil x =
     (case x of
        Finite r \<Rightarrow> Inr \<lceil>r\<rceil>
      | PosInf \<Rightarrow> Inl OverflowError
      | NegInf \<Rightarrow> Inl OverflowError
      | NaN \<Rightarrow> Inl ValueError)"

text \<open>The comparison \<open>frac_sum < 1\<close>: false on a NaN.\<close>

definition below_one :: "pyfloat \<Rightarrow> bool" where
  "below_one x =
     (case x of Finite r \<Rightarrow> r < 1 | PosInf \<Rightarrow> False | NegInf \<Rightarrow> True | NaN \<Rightarrow> False)"

text \<open>A split descriptor as \<open>isinstance\<close> sees it: a float, an int, or anything else.\<close>

datatype descr = PyFloat pyfloat | PyInt int | PyOther

definition split_types :: "string list" where
  "split_types = [''random'', ''from_front'', ''from_back'']"

text \<open>
  The loop over \<open>fractions\<close> (lines 37-47), with its three accumulators
  \<open>frac_sum\<close>, \<open>int_sum\<close> and \<open>n_samples\<close>. For a float descriptor
  \<open>math.ceil(original_size * frac)\<close> is evaluated in the loop, before the assertions on
  the sums, and what it raises leaves the loop. \<open>frac_sum\<close> starts as the int 0,
  which compares and adds as the float 0.
\<close>

fun resolve ::
  "(real \<Rightarrow> pyfloat) \<Rightarrow> int \<Rightarrow> descr list \<Rightarrow> pyfloat \<Rightarrow> int \<Rightarrow> int list
     \<Rightarrow> error + (pyfloat \<times> int \<times> int list)" where
  "resolve fl original_size [] frac_sum int_sum n_samples = Inr (frac_sum, int_sum, n_samples)"
| "resolve fl original_size (PyFloat f # fractions) frac_sum int_sum n_samples =
     (case int_to_float fl original_size of
        Inl e \<Rightarrow> Inl e
      | Inr sz \<Rightarrow>
          (case py_ceil (fmul fl sz f) of
             Inl e \<Rightarrow> Inl e
           | Inr cnt \<Rightarrow>
               resolve fl original_size fractions (fadd fl frac_sum f) (int_sum + cnt)
                 (n_samples @ [cnt])))"
| "resolve fl original_size (PyInt k # fractions) frac_sum int_sum n_samples =
     resolve fl original_size fractions frac_sum (int_sum + k) (n_samples @ [k])"
| "resolve fl original_size (PyOther # fractions) frac_sum int_sum n_samples = Inl ValueError"

text \<open>
  \<open>random.sample(population, k)\<close>: \<open>ValueError\<close> unless \<open>0 \<le> k \<le> len(population)\<close>,
  otherwise \<open>k\<close> elements drawn one after the other from a shrinking pool. The random
  source is the function \<open>rng\<close>: its value at \<open>k\<close> is the draw made when \<open>k + 1\<close>
  elements are still to be chosen.
\<close>

fun draw :: "(nat \<Rightarrow> nat) \<Rightarrow> 'a list \<Rightarrow> nat \<Rightarrow> 'a list" where
  "draw rng pool 0 = []"
| "draw rng [] (Suc k) = []"
| "draw rng (p # ps) (Suc k) =
     (let j = rng k mod length (p # ps)
      in (p # ps) ! j # draw rng (take j (p # ps) @ drop (Suc j) (p # ps)) k)"

definition random_sample :: "(nat \<Rightarrow> nat) \<Rightarrow> 'a list \<Rightarrow> int \<Rightarrow> error + 'a list" where
  "random_sample rng population k =
     (if k < 0 \<or> int (length population) < k then Inl ValueError
      else Inr (draw rng population (nat k)))"

text \<open>The choice of the index pool (lines 54-61).\<close>

definition select_indices :: "(nat \<Rightarrow> nat) \<Rightarrow> string \<Rightarrow> int \<Rightarrow> int \<Rightarrow> error + int list" where
  "select_indices rng method original_size int_sum =
     (if method = ''random'' then random_sample rng [0..original_size - 1] int_sum
      else if method = ''from_front'' then Inr [0..int_sum - 1]
      else if method = ''from_back''
        then Inr (rev [original_size - int_sum..original_size - 1])
      else Inr [])"

text \<open>
  The slicing loop (lines 62-65). Each split is a generator
  \<open>(indices[i] for i in range(start, start + stop))\<close>: its range is fixed when it is
  created, and each \<open>indices[i]\<close> is evaluated only when the generator is consumed, so a
  generator is the list of its items, each a value or the \<open>IndexError\<close> it would raise.
\<close>

type_synonym gen = "(error + int) list"

fun make_splits :: "int list \<Rightarrow> int \<Rightarrow> int list \<Rightarrow> gen list" where
  "make_splits indices start [] = []"
| "make_splits indices start (stop # n_samples) =
     map (py_index indices) [start..start + stop - 1]
       # make_splits indices (start + stop) n_samples"

text \<open>Everything \<open>split\<close> does before it calls \<open>_do_split\<close> (lines 30-65).\<close>

definition split_plan ::
  "(real \<Rightarrow> pyfloat) \<Rightarrow> (nat \<Rightarrow> nat) \<Rightarrow> nat \<Rightarrow> descr list \<Rightarrow> string \<Rightarrow> error + gen list" where
  "split_plan fl rng original_size fractions method =
     (if \<not> 0 < length fractions then Inl AssertionError
      else if method \<notin> set split_types then Inl AssertionError
      else case resolve fl (int original_size) fractions (Finite 0) 0 [] of
        Inl e \<Rightarrow> Inl e
      | Inr (frac_sum, int_sum, n_samples) \<Rightarrow>
          if \<not> below_one frac_sum then Inl AssertionError
          else if \<not> int_sum < int original_size then Inl AssertionError
          else (case select_indices rng method (int original_size) int_sum of
                  Inl e \<Rightarrow> Inl e
                | Inr indices \<Rightarrow> Inr (make_splits indices 0 n_samples)))"

text \<open>
  What \<open>split\<close> returns: the single dataset when one descriptor was given, the list
  otherwise.
\<close>

datatype 'd ret = Single 'd | Many "'d list"

text \<open>
  \<open>FEDataset.split\<close>. The abstract methods \<open>__len__\<close> and \<open>_do_split\<close> are the
  parameters \<open>len\<close> and \<open>do_split\<close>. The second component of the result is the
  dataset \<open>self\<close> as the call leaves it, also when the call raises.
\<close>

definition fe_split ::
  "('d \<Rightarrow> nat) \<Rightarrow> ('d \<Rightarrow> gen list \<Rightarrow> (error + 'd list) \<times> 'd) \<Rightarrow> (real \<Rightarrow> pyfloat) \<Rightarrow> (nat \<Rightarrow> nat)
     \<Rightarrow> 'd \<Rightarrow> descr list \<Rightarrow> string \<Rightarrow> (error + 'd ret) \<times> 'd" where
  "fe_split len do_split fl rng self fractions method =
     (case split_plan fl rng (len self) fractions method of
        Inl e \<Rightarrow> (Inl e, self)
      | Inr splits \<Rightarrow>
          (case do_split self splits of
             (Inl e, self') \<Rightarrow> (Inl e, self')
           | (Inr results, self') \<Rightarrow>
               if length fractions = 1
               then (case py_index results 0 of
                       Inl e \<Rightarrow> (Inl e, self')
                     | Inr r \<Rightarrow> (Inr (Single r), self'))
               else (Inr (Many results), self')))"

section \<open>SiameseDirDataset\<close>

text \<open>
  The fields of a \<open>SiameseDirDataset\<close>. \<open>data\<close> is the dictionary from instance
  index to record and \<open>class_data\<close> the dictionary from label to the set of indices with
  that label, both in insertion order.
\<close>

record siamese =
  data :: "(nat \<times> rcd) list"
  class_data :: "(val \<times> nat set) list"
  percent_matching_data :: real
  data_key_left :: string
  data_key_right :: string
  label_key :: string

text \<open>\<open>d[k]\<close> on a dictionary.\<close>

definition py_getitem :: "('k \<times> 'v) list \<Rightarrow> 'k \<Rightarrow> error + 'v" where
  "py_getitem d k = (case map_of d k of None \<Rightarrow> Inl KeyError | Some v \<Rightarrow> Inr v)"

text \<open>\<open>class_data.setdefault(label, set()).add(idx)\<close>.\<close>

fun setdefault_add :: "val \<Rightarrow> nat \<Rightarrow> (val \<times> nat set) list \<Rightarrow> (val \<times> nat set) list" where
  "setdefault_add label idx [] = [(label, {idx})]"
| "setdefault_add label idx ((k, s) # cd) =
     (if k = label then (k, insert idx s) # cd
      else (k, s) # setdefault_add label idx cd)"

text \<open>\<open>_data_to_class\<close>: the loop over \<open>data.items()\<close>, then the function itself.\<close>

fun data_to_class_loop ::
  "(nat \<times> rcd) list \<Rightarrow> string \<Rightarrow> (val \<times> nat set) list \<Rightarrow> error + (val \<times> nat set) list" where
  "data_to_class_loop [] lkey cd = Inr cd"
| "data_to_class_loop ((idx, elem) # items) lkey cd =
     (case py_getitem elem lkey of
        Inl e \<Rightarrow> Inl e
      | Inr label \<Rightarrow> data_to_class_loop items lkey (setdefault_add label idx cd))"

definition data_to_class :: "(nat \<times> rcd) list \<Rightarrow> string \<Rightarrow> error + (val \<times> nat set) list" where
  "data_to_class d lkey = data_to_class_loop d lkey []"

text \<open>
  \<open>__init__\<close>. The directory scan of the base class is outside this development: the
  dictionary it leaves in \<open>self.data\<close> is the argument \<open>scanned\<close>.
\<close>

definition siamese_init ::
  "(nat \<times> rcd) list \<Rightarrow> string \<Rightarrow> string \<Rightarrow> string \<Rightarrow> real \<Rightarrow> error + siamese" where
  "siamese_init scanned key_left key_right key_label percent =
     (case data_to_class scanned key_label of
        Inl e \<Rightarrow> Inl e
      | Inr cd \<Rightarrow> Inr \<lparr>data = scanned, class_data = cd, percent_matching_data = percent,
                     data_key_left = key_left, data_key_right = key_right,
                     label_key = key_label\<rparr>)"

text \<open>\<open>_split_length\<close>.\<close>

definition split_length :: "siamese \<Rightarrow> nat" where
  "split_length self = length (class_data self)"

text \<open>
  Modelled from the spec: \<open>_skip_init\<close>, which is not among the sources. It constructs
  a new dataset instance holding the given records and class index, every other
  attribute taken over from \<open>self\<close>.
\<close>

definition skip_init :: "siamese \<Rightarrow> (nat \<times> rcd) list \<Rightarrow> (val \<times> nat set) list \<Rightarrow> siamese" where
  "skip_init self new_data new_class_data = self\<lparr>data := new_data, class_data := new_class_data\<rparr>"

text \<open>
  \<open>sorted\<close> on a list of labels: integers by value, strings lexicographically, and a
  \<open>TypeError\<close> when an integer meets a string.
\<close>

definition is_IntV :: "val \<Rightarrow> bool" where
  "is_IntV v = (case v of IntV _ \<Rightarrow> True | StrV _ \<Rightarrow> False)"

definition the_IntV :: "val \<Rightarrow> int" where
  "the_IntV v = (case v of IntV i \<Rightarrow> i | StrV _ \<Rightarrow> 0)"

definition the_StrV :: "val \<Rightarrow> string" where
  "the_StrV v = (case v of IntV _ \<Rightarrow> [] | StrV s \<Rightarrow> s)"

definition py_sorted :: "val list \<Rightarrow> error + val list" where
  "py_sorted vs =
     (if list_all is_IntV vs then Inr (map IntV (sort (map the_IntV vs)))
      else if list_all (\<lambda>v. \<not> is_IntV v) vs then Inr (map StrV (sort (map the_StrV vs)))
      else Inl TypeError)"

text \<open>
  The list comprehension of line 103,
  \<open>[item for i in split for item in self.class_data[int_class_keys[i]]]\<close>.
  Python does not fix the order in which a set is iterated: \<open>it\<close> is that order,
  a parameter of everything that iterates a set of indices.
\<close>

fun gather ::
  "(nat set \<Rightarrow> nat list) \<Rightarrow> (val \<times> nat set) list \<Rightarrow> val list \<Rightarrow> gen \<Rightarrow> error + nat list" where
  "gather it cd int_class_keys [] = Inr []"
| "gather it cd int_class_keys (Inl e # split) = Inl e"
| "gather it cd int_class_keys (Inr i # split) =
     (case py_index int_class_keys i of
        Inl e \<Rightarrow> Inl e
      | Inr k \<Rightarrow>
          (case py_getitem cd k of
             Inl e \<Rightarrow> Inl e
           | Inr items \<Rightarrow>
               (case gather it cd int_class_keys split of
                  Inl e \<Rightarrow> Inl e
                | Inr rest \<Rightarrow> Inr (it items @ rest))))"

text \<open>
  The pops of the dictionary comprehension of line 104, in order: the popped records
  and the dictionary that is left, which on a \<open>KeyError\<close> has lost the records popped
  so far.
\<close>

fun pop_all :: "nat list \<Rightarrow> (nat \<times> rcd) list \<Rightarrow> (error + rcd list) \<times> (nat \<times> rcd) list" where
  "pop_all [] d = (Inr [], d)"
| "pop_all (old_idx # split) d =
     (case map_of d old_idx of
        None \<Rightarrow> (Inl KeyError, d)
      | Some v \<Rightarrow>
          (case pop_all split (AList.delete old_idx d) of
             (Inl e, d') \<Rightarrow> (Inl e, d')
           | (Inr vs, d') \<Rightarrow> (Inr (v # vs), d')))"

text \<open>The loop of \<open>_do_split\<close> (lines 100-110); \<open>self.class_data\<close> is not assigned in it.\<close>

fun do_split_loop ::
  "(nat set \<Rightarrow> nat list) \<Rightarrow> siamese \<Rightarrow> gen list \<Rightarrow> siamese list \<Rightarrow> (error + siamese list) \<times> siamese" where
  "do_split_loop it self [] results = (Inr results, self)"
| "do_split_loop it self (split # splits) results =
     (case py_sorted (map fst (class_data self)) of
        Inl e \<Rightarrow> (Inl e, self)
      | Inr int_class_keys \<Rightarrow>
          (case gather it (class_data self) int_class_keys split of
             Inl e \<Rightarrow> (Inl e, self)
           | Inr idxs \<Rightarrow>
               (case pop_all idxs (data self) of
                  (Inl e, d') \<Rightarrow> (Inl e, self\<lparr>data := d'\<rparr>)
                | (Inr vs, d') \<Rightarrow>
                    (case data_to_class (enumerate 0 vs) (label_key self) of
                       Inl e \<Rightarrow> (Inl e, self\<lparr>data := d'\<rparr>)
                     | Inr cd \<Rightarrow>
                         do_split_loop it (self\<lparr>data := d'\<rparr>) splits
                           (results @ [skip_init (self\<lparr>data := d'\<rparr>) (enumerate 0 vs) cd])))))"

text \<open>\<open>_do_split\<close>: the loop, then the re-keying of what is left (lines 112-113).\<close>

definition do_split ::
  "(nat set \<Rightarrow> nat list) \<Rightarrow> siamese \<Rightarrow> gen list \<Rightarrow> (error + siamese list) \<times> siamese" where
  "do_split it self splits =
     (case do_split_loop it self splits [] of
        (Inl e, self') \<Rightarrow> (Inl e, self')
      | (Inr results, self') \<Rightarrow>
          (let rekeyed = enumerate 0 (map snd (data self'))
           in case data_to_class rekeyed (label_key self') of
                Inl e \<Rightarrow> (Inl e, self'\<lparr>data := rekeyed\<rparr>)
              | Inr cd \<Rightarrow> (Inr results, self'\<lparr>data := rekeyed, class_data := cd\<rparr>)))"

text \<open>
  Modelled from the spec: \<open>split\<close> on a \<open>SiameseDirDataset\<close>. The class inherits
  \<open>split\<close> from a base class that is not among the sources. The spec gives the
  class-grouped dataset the \<open>split\<close> of section 4.1, which is the algorithm of
  \<open>FEDataset.split\<close> above, with its length taken to be the dataset's effective split
  length, the \<open>_split_length\<close> that the class overrides, and with \<open>_do_split\<close> as its
  partition routine.
\<close>

definition siamese_split ::
  "(nat set \<Rightarrow> nat list) \<Rightarrow> (real \<Rightarrow> pyfloat) \<Rightarrow> (nat \<Rightarrow> nat) \<Rightarrow> siamese \<Rightarrow> descr list \<Rightarrow> string
     \<Rightarrow> (error + siamese ret) \<times> siamese" where
  "siamese_split it = fe_split split_length (do_split it)"

text \<open>
  \<open>np.random.choice\<close> turns the list it is given into a numpy array and returns
  elements of that array. A list of instance indices becomes an array of 64-bit
  integers, whose elements equal the indices and hash like them (an index is below the
  number of records ever held). A list of labels is kept as it is when every label is an
  integer of 64 bits or when every label is a string that does not end in a NUL
  character. Any other list of labels is coerced by numpy (integers next to strings
  become strings, larger integers become floats or objects): what it becomes is the
  parameter \<open>coerce\<close>, about which nothing is assumed.
\<close>

definition is_int64 :: "val \<Rightarrow> bool" where
  "is_int64 v = (case v of IntV i \<Rightarrow> - (2 ^ 63) \<le> i \<and> i < 2 ^ 63 | StrV _ \<Rightarrow> False)"

definition is_plain_str :: "val \<Rightarrow> bool" where
  "is_plain_str v = (case v of IntV _ \<Rightarrow> False | StrV s \<Rightarrow> s = [] \<or> last s \<noteq> CHR 0x00)"

definition np_array :: "(val list \<Rightarrow> val list) \<Rightarrow> val list \<Rightarrow> val list" where
  "np_array coerce a =
     (if list_all is_int64 a \<or> list_all is_plain_str a then a else coerce a)"

text \<open>
  \<open>np.random.choice(a)\<close> on an array: \<open>ValueError\<close> when it is empty, otherwise the
  element at the position the random source \<open>r\<close> gives, each position of the array
  being as likely as any other.
\<close>

definition np_choice :: "'a list \<Rightarrow> nat \<Rightarrow> error + 'a" where
  "np_choice a r = (if a = [] then Inl ValueError else Inr (a ! (r mod length a)))"

text \<open>
  \<open>np.random.choice(a, size=k, replace=False)\<close>: \<open>ValueError\<close> when the array is empty
  or has fewer than \<open>k\<close> elements, otherwise \<open>k\<close> elements drawn without replacement.
\<close>

definition np_choice_sample :: "(nat \<Rightarrow> nat) \<Rightarrow> 'a list \<Rightarrow> nat \<Rightarrow> error + 'a list" where
  "np_choice_sample rng a k =
     (if a = [] \<or> length a < k then Inl ValueError else Inr (draw rng a k))"

text \<open>
  \<open>__getitem__\<close>. \<open>u\<close> is the value of \<open>np.random.uniform(0, 1)\<close>, \<open>r1\<close> and \<open>r2\<close>
  drive the two calls of \<open>np.random.choice\<close>, and \<open>itl\<close> is the order in which a set
  of labels is iterated. \<open>base_item\<close> is a deep copy, so no assignment to it reaches
  \<open>self\<close>: the dataset comes back as it went in.
\<close>

definition getitem ::
  "(nat set \<Rightarrow> nat list) \<Rightarrow> (val set \<Rightarrow> val list) \<Rightarrow> (val list \<Rightarrow> val list) \<Rightarrow> real \<Rightarrow> nat \<Rightarrow> nat
     \<Rightarrow> siamese \<Rightarrow> nat \<Rightarrow> (error + rcd) \<times> siamese" where
  "getitem it itl coerce u r1 r2 self index =
     (case py_getitem (data self) index of
        Inl e \<Rightarrow> (Inl e, self)
      | Inr base_item \<Rightarrow>
          if u < percent_matching_data self then
            (case py_getitem base_item (label_key self) of
               Inl e \<Rightarrow> (Inl e, self)
             | Inr lbl \<Rightarrow>
                 (case py_getitem (class_data self) lbl of
                    Inl e \<Rightarrow> (Inl e, self)
                  | Inr clazz_items \<Rightarrow>
                      (case np_choice (it (clazz_items - {index})) r1 of
                         Inl e \<Rightarrow> (Inl e, self)
                       | Inr other \<Rightarrow>
                           (case py_getitem (data self) other of
                              Inl e \<Rightarrow> (Inl e, self)
                            | Inr other_item \<Rightarrow>
                                (case py_getitem other_item (data_key_left self) of
                                   Inl e \<Rightarrow> (Inl e, self)
                                 | Inr v \<Rightarrow>
                                     (Inr (AList.update (label_key self) (IntV 1)
                                            (AList.update (data_key_right self) v base_item)),
                                      self))))))
          else
            (case py_getitem base_item (label_key self) of
               Inl e \<Rightarrow> (Inl e, self)
             | Inr lbl \<Rightarrow>
                 (case np_choice (np_array coerce (itl (set (map fst (class_data self)) - {lbl}))) r1 of
                    Inl e \<Rightarrow> (Inl e, self)
                  | Inr other_class \<Rightarrow>
                      (case py_getitem (class_data self) other_class of
                         Inl e \<Rightarrow> (Inl e, self)
                       | Inr other_items \<Rightarrow>
                           (case np_choice (it other_items) r2 of
                              Inl e \<Rightarrow> (Inl e, self)
                            | Inr other \<Rightarrow>
                                (case py_getitem (data self) other of
                                   Inl e \<Rightarrow> (Inl e, self)
                                 | Inr other_item \<Rightarrow>
                                     (case py_getitem other_item (data_key_left self) of
                                        Inl e \<Rightarrow> (Inl e, self)
                                      | Inr v \<Rightarrow>
                                          (Inr (AList.update (label_key self) (IntV 0)
                                                 (AList.update (data_key_right self) v base_item)),
                                           self))))))))"

text \<open>\<open>self.data[index][self.data_key_left]\<close>.\<close>

definition left_value :: "siamese \<Rightarrow> nat \<Rightarrow> error + val" where
  "left_value self index =
     (case py_getitem (data self) index of
        Inl e \<Rightarrow> Inl e
      | Inr item \<Rightarrow> py_getitem item (data_key_left self))"

text \<open>
  The loop of \<open>one_shot_trial\<close> over \<open>classes[1:]\<close> (lines 164-166): the values it
  appends to \<open>l2\<close>. The draw for a class is \<open>rs\<close> at the number of classes after it.
\<close>

fun trial_rest :: "(nat set \<Rightarrow> nat list) \<Rightarrow> (nat \<Rightarrow> nat) \<Rightarrow> siamese \<Rightarrow> val list \<Rightarrow> error + val list" where
  "trial_rest it rs self [] = Inr []"
| "trial_rest it rs self (clazz # classes) =
     (case py_getitem (class_data self) clazz of
        Inl e \<Rightarrow> Inl e
      | Inr items \<Rightarrow>
          (case np_choice (it items) (rs (length classes)) of
             Inl e \<Rightarrow> Inl e
           | Inr index \<Rightarrow>
               (case left_value self index of
                  Inl e \<Rightarrow> Inl e
                | Inr v \<Rightarrow>
                    (case trial_rest it rs self classes of
                       Inl e \<Rightarrow> Inl e
                     | Inr vs \<Rightarrow> Inr (v # vs)))))"

text \<open>
  \<open>one_shot_trial\<close>. \<open>rc\<close> drives the sampling of the classes, \<open>rb\<close> the sampling of
  the two base images and \<open>rs\<close> the choices of the loop.
\<close>

definition one_shot_trial ::
  "(nat set \<Rightarrow> nat list) \<Rightarrow> (val list \<Rightarrow> val list) \<Rightarrow> (nat \<Rightarrow> nat) \<Rightarrow> (nat \<Rightarrow> nat) \<Rightarrow> (nat \<Rightarrow> nat)
     \<Rightarrow> siamese \<Rightarrow> int \<Rightarrow> error + (val list \<times> val list)" where
  "one_shot_trial it coerce rc rb rs self n =
     (if \<not> 1 < n then Inl AssertionError
      else if \<not> n \<le> int (length (map fst (class_data self))) then Inl AssertionError
      else
        (case np_choice_sample rc (np_array coerce (map fst (class_data self))) (nat n) of
           Inl e \<Rightarrow> Inl e
         | Inr classes \<Rightarrow>
             (case py_index classes 0 of
                Inl e \<Rightarrow> Inl e
              | Inr class0 \<Rightarrow>
                  (case py_getitem (class_data self) class0 of
                     Inl e \<Rightarrow> Inl e
                   | Inr items0 \<Rightarrow>
                       (case np_choice_sample rb (it items0) 2 of
                          Inl e \<Rightarrow> Inl e
                        | Inr base_image_indices \<Rightarrow>
                            (case left_value self (base_image_indices ! 0) of
                               Inl e \<Rightarrow> Inl e
                             | Inr v0 \<Rightarrow>
                                 (case left_value self (base_image_indices ! 1) of
                                    Inl e \<Rightarrow> Inl e
                                  | Inr v1 \<Rightarrow>
                                      (case trial_rest it rs self (tl classes) of
                                         Inl e \<Rightarrow> Inl e
                                       | Inr vs \<Rightarrow>
                                           Inr (replicate (nat n) v0, v1 # vs)))))))))"

section \<open>Notions used to state the properties\<close>

text \<open>
  What one descriptor does in the loop of \<open>split\<close>: the count it resolves to, or the
  exception it raises.
\<close>

definition resolved_count :: "(real \<Rightarrow> pyfloat) \<Rightarrow> int \<Rightarrow> descr \<Rightarrow> error + int" where
  "resolved_count fl original_size d =
     (case d of
        PyFloat f \<Rightarrow>
          (case int_to_float fl original_size of
             Inl e \<Rightarrow> Inl e
           | Inr sz \<Rightarrow> py_ceil (fmul fl sz f))
      | PyInt k \<Rightarrow> Inr k
      | PyOther \<Rightarrow> Inl ValueError)"

text \<open>The sum of the float descriptors as the loop of \<open>split\<close> accumulates it.\<close>

definition frac_total :: "(real \<Rightarrow> pyfloat) \<Rightarrow> descr list \<Rightarrow> pyfloat \<Rightarrow> pyfloat" where
  "frac_total fl fractions start =
     foldl (\<lambda>s d. case d of PyFloat f \<Rightarrow> fadd fl s f | PyInt k \<Rightarrow> s | PyOther \<Rightarrow> s)
       start fractions"

text \<open>
  Labels that \<open>np.random.choice\<close> hands back as they are: all of them integers of 64
  bits, or all of them strings that do not end in a NUL character.
\<close>

definition np_keeps :: "val list \<Rightarrow> bool" where
  "np_keeps a \<longleftrightarrow> list_all is_int64 a \<or> list_all is_plain_str a"


text \<open>
  Iterating a Python set yields each of its elements once: what is assumed of the
  iteration order \<open>f\<close> on the set \<open>S\<close>.
\<close>

definition lists_set :: "('a set \<Rightarrow> 'a list) \<Rightarrow> 'a set \<Rightarrow> bool" where
  "lists_set f S \<longleftrightarrow> set (f S) = S \<and> distinct (f S)"

text \<open>
  A dataset as \<open>__init__\<close> and \<open>_do_split\<close> leave it: the keys of \<open>data\<close> are those of
  a dictionary, and \<open>class_data\<close> is what \<open>_data_to_class\<close> computes from \<open>data\<close>.
\<close>

definition well_formed :: "siamese \<Rightarrow> bool" where
  "well_formed self \<longleftrightarrow>
     distinct (map fst (data self))
     \<and> data_to_class (data self) (label_key self) = Inr (class_data self)"

text \<open>
  Example datasets: the dataset \<open>__init__\<close> builds, with the default keys, from a scan
  whose \<open>i\<close>-th file has the label \<open>labels ! i\<close>.
\<close>

definition example_data :: "int list \<Rightarrow> (nat \<times> rcd) list" where
  "example_data labels =
     enumerate 0 (map (\<lambda>l. [(''x_a'', StrV ''file''), (''y'', IntV l)]) labels)"

definition example_dataset :: "int list \<Rightarrow> siamese" where
  "example_dataset labels =
     \<lparr>data = example_data labels,
      class_data = (case data_to_class (example_data labels) ''y'' of
                      Inl e \<Rightarrow> [] | Inr cd \<Rightarrow> cd),
      percent_matching_data = 1 / 2, data_key_left = ''x_a'', data_key_right = ''x_b'',
      label_key = ''y''\<rparr>"

text \<open>The set stored for a label in a class index, empty for a label that is not a key.\<close>

definition class_of :: "(val \<times> nat set) list \<Rightarrow> val \<Rightarrow> nat set" where
  "class_of cd l = (case map_of cd l of None \<Rightarrow> {} | Some s \<Rightarrow> s)"

text \<open>The indices of the records of \<open>d\<close> whose label is \<open>l\<close>.\<close>

definition members :: "(nat \<times> rcd) list \<Rightarrow> string \<Rightarrow> val \<Rightarrow> nat set" where
  "members d lkey l = {i. \<exists>r. (i, r) \<in> set d \<and> map_of r lkey = Some l}"

text \<open>The labels that occur in a set of records.\<close>

definition rec_labels :: "string \<Rightarrow> rcd set \<Rightarrow> val set" where
  "rec_labels lkey V = {l. \<exists>v\<in>V. map_of v lkey = Some l}"

text \<open>The keys of \<open>data\<close> are \<open>0, 1, \<dots>, len - 1\<close>, in this order.\<close>

definition keys_contiguous :: "siamese \<Rightarrow> bool" where
  "keys_contiguous self \<longleftrightarrow> map fst (data self) = [0..<length (data self)]"

text \<open>No two sets of a list of sets share an element.\<close>

fun pairwise_disjoint :: "'a set list \<Rightarrow> bool" where
  "pairwise_disjoint [] = True"
| "pairwise_disjoint (s # ss) = ((\<forall>t\<in>set ss. s \<inter> t = {}) \<and> pairwise_disjoint ss)"

text \<open>The class-index invariant: the sets of \<open>class_data\<close> cover the keys of \<open>data\<close>
  and no index is in two of them.\<close>

definition class_index_inv :: "siamese \<Rightarrow> bool" where
  "class_index_inv self \<longleftrightarrow>
     \<Union> (set (map snd (class_data self))) = set (map fst (data self))
     \<and> pairwise_disjoint (map snd (class_data self))"

text \<open>The datasets a call of \<open>split\<close> returned, as a list.\<close>

fun ret_list :: "'d ret \<Rightarrow> 'd list" where
  "ret_list (Single r) = [r]"
| "ret_list (Many rs) = rs"

text \<open>The labels of the classes of a list of datasets, dataset after dataset.\<close>

definition all_labels :: "siamese list \<Rightarrow> val list" where
  "all_labels rs = concat (map (\<lambda>r. map fst (class_data r)) rs)"

text \<open>An iteration order for sets of integer labels, used in the examples: ascending.\<close>

definition int_labels_sorted :: "val set \<Rightarrow> val list" where
  "int_labels_sorted S = map IntV (sorted_list_of_set (the_IntV ` S))"

text \<open>Example datasets with named files: the scan of files \<open>(name, label)\<close>, and the dataset
  \<open>__init__\<close> builds from it with the default keys.\<close>

definition named_data :: "(string \<times> int) list \<Rightarrow> (nat \<times> rcd) list" where
  "named_data files = enumerate 0 (map (\<lambda>(f, l). [(''x_a'', StrV f), (''y'', IntV l)]) files)"

definition named_dataset :: "(string \<times> int) list \<Rightarrow> siamese" where
  "named_dataset files =
     \<lparr>data = named_data files,
      class_data = (case data_to_class (named_data files) ''y'' of
                      Inl e \<Rightarrow> [] | Inr cd \<Rightarrow> cd),
      percent_matching_data = 1 / 2, data_key_left = ''x_a'', data_key_right = ''x_b'',
      label_key = ''y''\<rparr>"

text \<open>Four files: \<open>a0\<close> and \<open>a1\<close> of class 0, \<open>b0\<close> of class 1, \<open>c0\<close> of class 2.\<close>

definition pairs_ds :: siamese where
  "pairs_ds = named_dataset [(''a0'', 0), (''a1'', 0), (''b0'', 1), (''c0'', 2)]"

text \<open>Six files: \<open>a0\<close>, \<open>a1\<close> and \<open>a2\<close> of class 0, \<open>b0\<close> and \<open>b1\<close> of class 1,
  \<open>c0\<close> of class 2.\<close>

definition trio_ds :: siamese where
  "trio_ds = named_dataset
     [(''a0'', 0), (''a1'', 0), (''a2'', 0), (''b0'', 1), (''b1'', 1), (''c0'', 2)]"

text \<open>Two files of two classes, and three files of which the first is alone in its class.\<close>

definition singles_ds :: siamese where
  "singles_ds = named_dataset [(''a0'', 0), (''b0'', 1)]"

definition lone_first_ds :: siamese where
  "lone_first_ds = named_dataset [(''a0'', 0), (''b0'', 1), (''b1'', 1)]"

section \<open>Properties of split\<close>

lemma resolved_count_Inl:
  "resolved_count fl n d = Inl e \<Longrightarrow> e = ValueError \<or> e = OverflowError"
  by (auto simp: resolved_count_def int_to_float_def py_ceil_def
      split: descr.splits sum.splits pyfloat.splits)

lemma resolve_Inr:
  "resolve fl n fractions a b c = Inr (x, y, z) \<Longrightarrow>
     x = frac_total fl fractions a
     \<and> (\<exists>cs. map (resolved_count fl n) fractions = map Inr cs \<and> z = c @ cs
            \<and> y = b + sum_list cs)"
proof (induction fl n fractions a b c rule: resolve.induct)
  case (1 fl n a b c)
  then show ?case by (simp add: frac_total_def)
next
  case (2 fl n f fractions a b c)
  from "2.prems" obtain sz cnt where
    s: "int_to_float fl n = Inr sz" and f: "py_ceil (fmul fl sz f) = Inr cnt"
    and r: "resolve fl n fractions (fadd fl a f) (b + cnt) (c @ [cnt]) = Inr (x, y, z)"
    by (auto split: sum.splits)
  from "2.IH"[OF s f r] obtain cs where
    x: "x = frac_total fl fractions (fadd fl a f)"
    and cs: "map (resolved_count fl n) fractions = map Inr cs" "z = (c @ [cnt]) @ cs"
      "y = b + cnt + sum_list cs"
    by blast
  have "resolved_count fl n (PyFloat f) = Inr cnt" by (simp add: resolved_count_def s f)
  with cs have "map (resolved_count fl n) (PyFloat f # fractions) = map Inr (cnt # cs)
      \<and> z = c @ (cnt # cs) \<and> y = b + sum_list (cnt # cs)" by simp
  moreover have "x = frac_total fl (PyFloat f # fractions) a" using x by (simp add: frac_total_def)
  ultimately show ?case by blast
next
  case (3 fl n k fractions a b c)
  from "3.prems" have r: "resolve fl n fractions a (b + k) (c @ [k]) = Inr (x, y, z)" by simp
  from "3.IH"[OF r] obtain cs where
    x: "x = frac_total fl fractions a"
    and cs: "map (resolved_count fl n) fractions = map Inr cs" "z = (c @ [k]) @ cs"
      "y = b + k + sum_list cs"
    by blast
  have "resolved_count fl n (PyInt k) = Inr k" by (simp add: resolved_count_def)
  with cs have "map (resolved_count fl n) (PyInt k # fractions) = map Inr (k # cs)
      \<and> z = c @ (k # cs) \<and> y = b + sum_list (k # cs)" by simp
  moreover have "x = frac_total fl (PyInt k # fractions) a" using x by (simp add: frac_total_def)
  ultimately show ?case by blast
next
  case (4 fl n fractions a b c)
  then show ?case by simp
qed

lemma resolve_Inl:
  "resolve fl n fractions a b c = Inl e \<Longrightarrow> \<exists>d\<in>set fractions. resolved_count fl n d = Inl e"
proof (induction fl n fractions a b c rule: resolve.induct)
  case (1 fl n a b c)
  then show ?case by simp
next
  case (2 fl n f fractions a b c)
  show ?case
  proof (cases "resolved_count fl n (PyFloat f)")
    case (Inl e')
    with "2.prems" have "e' = e"
      by (auto simp: resolved_count_def split: sum.splits)
    with Inl show ?thesis by auto
  next
    case (Inr cnt)
    then obtain sz where s: "int_to_float fl n = Inr sz"
      and f: "py_ceil (fmul fl sz f) = Inr cnt"
      by (auto simp: resolved_count_def split: sum.splits)
    with "2.prems" have "resolve fl n fractions (fadd fl a f) (b + cnt) (c @ [cnt]) = Inl e"
      by simp
    from "2.IH"[OF s f this] show ?thesis by auto
  qed
next
  case (3 fl n k fractions a b c)
  then show ?case by auto
next
  case (4 fl n fractions a b c)
  then show ?case by (auto simp: resolved_count_def)
qed

lemma resolve_total:
  "map (resolved_count fl n) fractions = map Inr cs \<Longrightarrow>
     resolve fl n fractions a b c = Inr (frac_total fl fractions a, b + sum_list cs, c @ cs)"
proof (induction fl n fractions a b c arbitrary: cs rule: resolve.induct)
  case (1 fl n a b c)
  then show ?case by (simp add: frac_total_def)
next
  case (2 fl n f fractions a b c)
  from "2.prems" obtain cnt cs' where cs: "cs = cnt # cs'"
    and h: "resolved_count fl n (PyFloat f) = Inr cnt"
    and t: "map (resolved_count fl n) fractions = map Inr cs'"
    by (cases cs) auto
  from h obtain sz where s: "int_to_float fl n = Inr sz"
    and f: "py_ceil (fmul fl sz f) = Inr cnt"
    by (auto simp: resolved_count_def split: sum.splits)
  from "2.IH"[OF s f t] show ?case by (simp add: s f cs frac_total_def)
next
  case (3 fl n k fractions a b c)
  have h: "resolved_count fl n (PyInt k) = Inr k" by (simp add: resolved_count_def)
  from "3.prems" h obtain cs' where cs: "cs = k # cs'"
    and t: "map (resolved_count fl n) fractions = map Inr cs'"
    by (cases cs) auto
  from "3.IH"[OF t] show ?case by (simp add: cs frac_total_def)
next
  case (4 fl n fractions a b c)
  have "resolved_count fl n PyOther = Inl ValueError" by (simp add: resolved_count_def)
  with "4.prems" show ?case by (cases cs) auto
qed

lemma split_plan_invalid:
  assumes "fractions = [] \<or> method \<notin> set split_types \<or> PyOther \<in> set fractions
     \<or> \<not> below_one (frac_total fl fractions (Finite 0))
     \<or> (\<exists>counts. map (resolved_count fl (int n)) fractions = map Inr counts
           \<and> int n \<le> sum_list counts)"
  shows "\<exists>e. split_plan fl rng n fractions method = Inl e
     \<and> (e = AssertionError \<or> e = ValueError \<or> e = OverflowError)
     \<and> (e = ValueError \<or> e = OverflowError
          \<longrightarrow> (\<exists>d\<in>set fractions. resolved_count fl (int n) d = Inl e))"
proof (cases "fractions = [] \<or> method \<notin> set split_types")
  case True
  then have "split_plan fl rng n fractions method = Inl AssertionError"
    by (auto simp: split_plan_def)
  then show ?thesis by simp
next
  case False
  then have ne: "0 < length fractions" and m: "method \<in> set split_types" by simp_all
  show ?thesis
  proof (cases "resolve fl (int n) fractions (Finite 0) 0 []")
    case (Inl e)
    from resolve_Inl[OF Inl] obtain d where
      d: "d \<in> set fractions" "resolved_count fl (int n) d = Inl e" by blast
    from resolved_count_Inl[OF d(2)] have e: "e = ValueError \<or> e = OverflowError" .
    have "split_plan fl rng n fractions method = Inl e"
      using ne m Inl by (simp add: split_plan_def)
    with d e show ?thesis by blast
  next
    case (Inr t)
    obtain x y z where t: "t = (x, y, z)" by (cases t)
    from resolve_Inr[OF Inr[unfolded t]] obtain cs where
      x: "x = frac_total fl fractions (Finite 0)"
      and cs: "map (resolved_count fl (int n)) fractions = map Inr cs" "y = sum_list cs"
      by auto
    have no: "PyOther \<notin> set fractions"
    proof
      assume "PyOther \<in> set fractions"
      then have "resolved_count fl (int n) PyOther \<in> set (map (resolved_count fl (int n)) fractions)"
        by simp
      with cs(1) show False by (auto simp: resolved_count_def)
    qed
    have "\<not> below_one x \<or> int n \<le> y"
    proof -
      from assms False no consider "\<not> below_one (frac_total fl fractions (Finite 0))"
        | counts where "map (resolved_count fl (int n)) fractions = map Inr counts"
            "int n \<le> sum_list counts"
        by blast
      then show ?thesis
      proof cases
        case 1
        then show ?thesis by (simp add: x)
      next
        case 2
        from 2(1) cs(1) have "map Inr counts = (map Inr cs :: (error + int) list)" by simp
        then have "counts = cs" by (simp add: inj_map_eq_map)
        with 2(2) cs(2) show ?thesis by simp
      qed
    qed
    then have "split_plan fl rng n fractions method = Inl AssertionError"
      using ne m Inr t by (auto simp: split_plan_def)
    then show ?thesis by simp
  qed
qed

lemma py_index_slice:
  assumes "0 \<le> start" "0 \<le> stop" "start + stop \<le> int (length xs)"
  shows "map (py_index xs) [start..start + stop - 1] = map Inr (take (nat stop) (drop (nat start) xs))"
proof (rule nth_equalityI)
  show "length (map (py_index xs) [start..start + stop - 1]) = length (map Inr (take (nat stop) (drop (nat start) xs)))"
    using assms by auto
next
  fix i assume "i < length (map (py_index xs) [start..start + stop - 1])"
  then have i: "int i < stop" by auto
  then show "map (py_index xs) [start..start + stop - 1] ! i = map Inr (take (nat stop) (drop (nat start) xs)) ! i"
    using assms by (auto simp: py_index_def Let_def nat_add_distrib)
qed

lemma make_splits_parts:
  assumes "\<forall>c\<in>set n_samples. 0 \<le> c" "0 \<le> start" "start + sum_list n_samples \<le> int (length indices)"
  shows "\<exists>parts. make_splits indices start n_samples = map (map Inr) parts
     \<and> concat parts = take (nat (sum_list n_samples)) (drop (nat start) indices)
     \<and> map (\<lambda>p. int (length p)) parts = n_samples"
  using assms
proof (induction n_samples arbitrary: start)
  case Nil
  then show ?case by simp
next
  case (Cons stop n_samples)
  have nn: "0 \<le> stop" "0 \<le> sum_list n_samples" using Cons.prems(1) by (auto intro: sum_list_nonneg)
  from Cons.IH[of "start + stop"] Cons.prems nn obtain parts where
    p: "make_splits indices (start + stop) n_samples = map (map Inr) parts"
       "concat parts = take (nat (sum_list n_samples)) (drop (nat (start + stop)) indices)"
       "map (\<lambda>p. int (length p)) parts = n_samples"
    by auto
  let ?h = "take (nat stop) (drop (nat start) indices)"
  have h: "map (py_index indices) [start..start + stop - 1] = map Inr ?h"
    using py_index_slice[of start stop indices] Cons.prems nn by simp
  have "?h @ concat parts = take (nat (stop + sum_list n_samples)) (drop (nat start) indices)"
    using p(2) nn Cons.prems(2)
    by (simp add: nat_add_distrib take_add add.commute)
  moreover have "int (length ?h) = stop" using Cons.prems nn by auto
  ultimately show ?case using p h
    by (intro exI[of _ "?h # parts"]) simp
qed

lemma remove_nth_props:
  assumes "j < length xs"
  shows "length (take j xs @ drop (Suc j) xs) = length xs - 1"
    and "set (take j xs @ drop (Suc j) xs) \<subseteq> set xs"
    and "distinct xs \<Longrightarrow> distinct (take j xs @ drop (Suc j) xs) \<and> xs ! j \<notin> set (take j xs @ drop (Suc j) xs)"
proof -
  show "length (take j xs @ drop (Suc j) xs) = length xs - 1" using assms by auto
  show "set (take j xs @ drop (Suc j) xs) \<subseteq> set xs"
    by (auto dest: in_set_takeD in_set_dropD)
  assume d: "distinct xs"
  have "xs = take j xs @ xs ! j # drop (Suc j) xs" using assms by (rule id_take_nth_drop)
  then have "distinct (take j xs @ xs ! j # drop (Suc j) xs)" using d by simp
  then show "distinct (take j xs @ drop (Suc j) xs) \<and> xs ! j \<notin> set (take j xs @ drop (Suc j) xs)"
    by auto
qed

lemma draw_props:
  "k \<le> length pool \<Longrightarrow> length (draw rng pool k) = k \<and> set (draw rng pool k) \<subseteq> set pool
     \<and> (distinct pool \<longrightarrow> distinct (draw rng pool k))"
proof (induction rng pool k rule: draw.induct)
  case (3 rng p ps k)
  define pool where "pool = p # ps"
  define j where "j = rng k mod length pool"
  define rest where "rest = take j pool @ drop (Suc j) pool"
  have j: "j < length pool" by (simp add: j_def pool_def)
  have len: "k \<le> length rest"
    using "3.prems" remove_nth_props(1)[OF j] by (simp add: rest_def pool_def)
  have IH: "length (draw rng rest k) = k \<and> set (draw rng rest k) \<subseteq> set rest
     \<and> (distinct rest \<longrightarrow> distinct (draw rng rest k))"
    using "3.IH"[OF j_def[unfolded pool_def]] len by (simp add: rest_def j_def pool_def)
  have eq: "draw rng pool (Suc k) = pool ! j # draw rng rest k"
    by (simp add: pool_def j_def rest_def Let_def)
  have sub: "set rest \<subseteq> set pool" using remove_nth_props(2)[of j pool] j by (simp add: rest_def)
  have "pool ! j \<in> set pool" using j by simp
  moreover have "distinct pool \<Longrightarrow> distinct rest \<and> pool ! j \<notin> set rest"
    using remove_nth_props(3)[OF j] by (simp add: rest_def)
  ultimately show ?case using IH sub unfolding pool_def[symmetric] eq by auto
qed auto

text \<open>A draw of \<open>k\<close> elements consults the random source below \<open>k\<close> only.\<close>

lemma draw_cong:
  "\<forall>i<k. rng i = rng' i \<Longrightarrow> draw rng pool k = draw rng' pool k"
proof (induction k arbitrary: pool)
  case 0
  show ?case by simp
next
  case (Suc k)
  from Suc.prems have r: "rng k = rng' k" and below: "\<forall>i<k. rng i = rng' i" by simp_all
  show ?case
  proof (cases pool)
    case Nil
    then show ?thesis by simp
  next
    case (Cons p ps)
    have "draw rng (take (rng' k mod length (p # ps)) (p # ps)
              @ drop (Suc (rng' k mod length (p # ps))) (p # ps)) k
        = draw rng' (take (rng' k mod length (p # ps)) (p # ps)
              @ drop (Suc (rng' k mod length (p # ps))) (p # ps)) k"
      using below by (rule Suc.IH)
    then show ?thesis unfolding Cons by (simp only: draw.simps Let_def r)
  qed
qed

text \<open>
  Every arrangement of pairwise different elements of the pool is what some random
  source draws.
\<close>

lemma draw_reaches:
  "distinct target \<Longrightarrow> set target \<subseteq> set pool \<Longrightarrow> \<exists>rng. draw rng pool (length target) = target"
proof (induction target arbitrary: pool)
  case Nil
  show ?case by simp
next
  case (Cons t ts)
  from Cons.prems have "t \<in> set pool" by simp
  then obtain j where j: "j < length pool" "pool ! j = t" by (auto simp: in_set_conv_nth)
  define rest where "rest = take j pool @ drop (Suc j) pool"
  have split: "pool = take j pool @ pool ! j # drop (Suc j) pool"
    using j(1) by (rule id_take_nth_drop)
  have "set pool = set (take j pool) \<union> {pool ! j} \<union> set (drop (Suc j) pool)"
    by (subst split) (simp only: set_append list.set, blast)
  then have "set pool - {t} \<subseteq> set rest" using j(2) by (auto simp: rest_def)
  moreover from Cons.prems have "set ts \<subseteq> set pool - {t}" by auto
  ultimately have "set ts \<subseteq> set rest" by blast
  moreover from Cons.prems have "distinct ts" by simp
  ultimately obtain rng' where r: "draw rng' rest (length ts) = ts"
    using Cons.IH by blast
  define rng where "rng = rng'(length ts := j)"
  from j(1) obtain p ps where pool: "pool = p # ps" by (cases pool) auto
  have "draw rng rest (length ts) = draw rng' rest (length ts)"
    by (rule draw_cong) (simp add: rng_def)
  moreover have "rng (length ts) mod length pool = j" using j(1) by (simp add: rng_def)
  ultimately have "draw rng pool (length (t # ts)) = t # ts"
    using r j(2) unfolding pool rest_def by (simp add: Let_def)
  then show ?case by (rule exI[of _ rng])
qed

lemma select_indices_props:
  assumes "method \<in> set split_types" "0 \<le> int_sum" "int_sum \<le> n" 
  shows "\<exists>indices. select_indices rng method n int_sum = Inr indices
     \<and> (method = ''from_front'' \<longrightarrow> indices = [0..int_sum - 1])
     \<and> (method = ''from_back'' \<longrightarrow> indices = rev [n - int_sum..n - 1])
     \<and> (method = ''random'' \<longrightarrow> distinct indices \<and> set indices \<subseteq> {0..n - 1})
     \<and> int (length indices) = int_sum"
proof -
  consider "method = ''random''" | "method = ''from_front''" | "method = ''from_back''"
    using assms(1) by (auto simp: split_types_def)
  then show ?thesis
  proof cases
    case 1
    have k: "nat int_sum \<le> length [0..n - 1]" using assms by simp
    show ?thesis
      using draw_props[OF k, of rng] assms 1
      by (simp add: select_indices_def random_sample_def)
  next
    case 2
    then show ?thesis using assms by (simp add: select_indices_def)
  next
    case 3
    then show ?thesis using assms by (simp add: select_indices_def)
  qed
qed

lemma select_indices_reaches:
  assumes "distinct target" "set target \<subseteq> {0..n - 1}"
  shows "\<exists>rng. select_indices rng ''random'' n (int (length target)) = Inr target"
proof -
  have pool: "set [0..n - 1] = {0..n - 1}" by simp
  from assms(2) have sub: "set target \<subseteq> set [0..n - 1]" by (simp only: pool)
  from draw_reaches[OF assms(1) sub] obtain rng where
    r: "draw rng [0..n - 1] (length target) = target" ..
  have "card (set target) \<le> card (set [0..n - 1])"
    by (rule card_mono[OF finite_set sub])
  then have "length target \<le> card (set [0..n - 1])"
    using assms(1) by (simp only: distinct_card)
  moreover have "card (set [0..n - 1]) \<le> length [0..n - 1]" by (rule card_length)
  ultimately have "length target \<le> length [0..n - 1]" by (rule order_trans)
  then have ok: "\<not> (int (length target) < 0 \<or> int (length [0..n - 1]) < int (length target))"
    by linarith
  have "select_indices rng ''random'' n (int (length target))
      = random_sample rng [0..n - 1] (int (length target))"
    by (simp only: select_indices_def if_True simp_thms)
  also have "\<dots> = Inr (draw rng [0..n - 1] (nat (int (length target))))"
    unfolding random_sample_def using ok by (simp only: if_False)
  also have "\<dots> = Inr target" by (simp only: nat_int r)
  finally show ?thesis by (rule exI[of _ rng])
qed

text \<open>
  Claim C2. A call of \<open>split\<close> whose arguments violate a precondition (no descriptor,
  a method that is not one of the three, a descriptor that is neither float nor int, a
  sum of fractions that is not below 1, a sum of resolved counts that is not below the
  length \<open>split\<close> measures the dataset by) raises an exception and leaves the dataset
  exactly as it was: \<open>_do_split\<close>, whatever it is, is not reached. The exception is
  \<open>AssertionError\<close>, unless a descriptor raises in the loop that resolves the
  descriptors, which runs before the assertions on the sums: then it is the
  \<open>ValueError\<close> of the descriptor that is neither float nor int, or what
  \<open>math.ceil\<close> raises on a product that is not finite, \<open>OverflowError\<close> for an
  infinite product and \<open>ValueError\<close> for a NaN.
\<close>

theorem split_validation_fails_before_mutation:
  assumes "fractions = [] \<or> method \<notin> set split_types \<or> PyOther \<in> set fractions
     \<or> \<not> below_one (frac_total fl fractions (Finite 0))
     \<or> (\<exists>counts. map (resolved_count fl (int (len self))) fractions = map Inr counts
           \<and> int (len self) \<le> sum_list counts)"
  shows "\<exists>e. fe_split len dsplit fl rng self fractions method = (Inl e, self)
     \<and> (e = AssertionError \<or> e = ValueError \<or> e = OverflowError)
     \<and> (e = ValueError \<or> e = OverflowError
          \<longrightarrow> (\<exists>d\<in>set fractions. resolved_count fl (int (len self)) d = Inl e))"
proof -
  from split_plan_invalid[OF assms, of rng] obtain e where
    e: "split_plan fl rng (len self) fractions method = Inl e"
      "e = AssertionError \<or> e = ValueError \<or> e = OverflowError"
      "e = ValueError \<or> e = OverflowError
          \<longrightarrow> (\<exists>d\<in>set fractions. resolved_count fl (int (len self)) d = Inl e)"
    by (elim exE conjE)
  from e(1) have "fe_split len dsplit fl rng self fractions method = (Inl e, self)"
    by (simp add: fe_split_def)
  with e(2,3) show ?thesis by (intro exI[of _ e] conjI)
qed

theorem split_validation_fails_before_mutation_witness:
  "''from_middle'' \<notin> set split_types
   \<and> (\<exists>e. fe_split split_length (do_split sorted_list_of_set) Finite (\<lambda>k. 0)
             (example_dataset [0, 0, 1, 1, 2]) [PyFloat (Finite (1 / 2))] ''from_middle''
           = (Inl e, example_dataset [0, 0, 1, 1, 2])
        \<and> (e = AssertionError \<or> e = ValueError \<or> e = OverflowError))
   \<and> fe_split split_length (do_split sorted_list_of_set) Finite (\<lambda>k. 0)
         (example_dataset [0, 0, 1, 1, 2]) [PyFloat (Finite (1 / 2))] ''from_middle''
       = (Inl AssertionError, example_dataset [0, 0, 1, 1, 2])
   \<and> below_one (frac_total Finite [PyFloat PosInf] (Finite 0)) = False
   \<and> (\<exists>e. fe_split split_length (do_split sorted_list_of_set) Finite (\<lambda>k. 0)
             (example_dataset [0, 0, 1, 1, 2]) [PyFloat PosInf] ''random''
           = (Inl e, example_dataset [0, 0, 1, 1, 2])
        \<and> (e = AssertionError \<or> e = ValueError \<or> e = OverflowError))
   \<and> fe_split split_length (do_split sorted_list_of_set) Finite (\<lambda>k. 0)
         (example_dataset [0, 0, 1, 1, 2]) [PyFloat PosInf] ''random''
       = (Inl OverflowError, example_dataset [0, 0, 1, 1, 2])"
proof -
  let ?ds = "example_dataset [0, 0, 1, 1, 2]"
  have h: "''from_middle'' \<notin> set split_types" by (simp add: split_types_def)
  then have a1: "[PyFloat (Finite (1 / 2))] = [] \<or> ''from_middle'' \<notin> set split_types
     \<or> PyOther \<in> set [PyFloat (Finite (1 / 2))]
     \<or> \<not> below_one (frac_total Finite [PyFloat (Finite (1 / 2))] (Finite 0))
     \<or> (\<exists>counts. map (resolved_count Finite (int (split_length ?ds))) [PyFloat (Finite (1 / 2))]
             = map Inr counts
           \<and> int (split_length ?ds) \<le> sum_list counts)"
    by (intro disjI2 disjI1)
  from split_validation_fails_before_mutation[where len = split_length and self = "?ds"
      and dsplit = "do_split sorted_list_of_set" and rng = "\<lambda>k. 0", OF a1]
  have c1: "\<exists>e. fe_split split_length (do_split sorted_list_of_set) Finite (\<lambda>k. 0) ?ds
             [PyFloat (Finite (1 / 2))] ''from_middle'' = (Inl e, ?ds)
        \<and> (e = AssertionError \<or> e = ValueError \<or> e = OverflowError)"
    by (elim exE conjE) (intro exI conjI)
  have e1: "fe_split split_length (do_split sorted_list_of_set) Finite (\<lambda>k. 0) ?ds
         [PyFloat (Finite (1 / 2))] ''from_middle'' = (Inl AssertionError, ?ds)"
    by code_simp
  have b: "below_one (frac_total Finite [PyFloat PosInf] (Finite 0)) = False"
    by (simp add: frac_total_def below_one_def)
  then have a2: "[PyFloat PosInf] = [] \<or> ''random'' \<notin> set split_types
     \<or> PyOther \<in> set [PyFloat PosInf]
     \<or> \<not> below_one (frac_total Finite [PyFloat PosInf] (Finite 0))
     \<or> (\<exists>counts. map (resolved_count Finite (int (split_length ?ds))) [PyFloat PosInf]
             = map Inr counts
           \<and> int (split_length ?ds) \<le> sum_list counts)"
    by (intro disjI2 disjI1) simp
  from split_validation_fails_before_mutation[where len = split_length and self = "?ds"
      and dsplit = "do_split sorted_list_of_set" and rng = "\<lambda>k. 0", OF a2]
  have c2: "\<exists>e. fe_split split_length (do_split sorted_list_of_set) Finite (\<lambda>k. 0) ?ds
             [PyFloat PosInf] ''random'' = (Inl e, ?ds)
        \<and> (e = AssertionError \<or> e = ValueError \<or> e = OverflowError)"
    by (elim exE conjE) (intro exI conjI)
  have e2: "fe_split split_length (do_split sorted_list_of_set) Finite (\<lambda>k. 0) ?ds
         [PyFloat PosInf] ''random'' = (Inl OverflowError, ?ds)"
    by code_simp
  from h c1 e1 b c2 e2 show ?thesis by (intro conjI)
qed

text \<open>
  Claim C8. In a call of \<open>split\<close> that passes validation and whose resolved counts are
  not negative, the index pool is \<open>0, 1, \<dots>, int_sum - 1\<close> for \<open>from_front\<close>, the last
  \<open>int_sum\<close> indices in decreasing order for \<open>from_back\<close>, and \<open>int_sum\<close> pairwise
  different indices of \<open>range(original_size)\<close> for \<open>random\<close>, where every arrangement
  of \<open>int_sum\<close> pairwise different indices of \<open>range(original_size)\<close> is the pool, and is
  cut into the splits, for some random source. The generators handed to \<open>_do_split\<close>
  raise nothing and cut the pool, in descriptor order, into consecutive pieces whose
  lengths are the resolved counts.
\<close>

theorem split_index_selection:
  assumes "split_plan fl rng original_size fractions method = Inr splits"
    and "resolve fl (int original_size) fractions (Finite 0) 0 [] = Inr (frac_sum, int_sum, n_samples)"
    and "\<forall>c\<in>set n_samples. 0 \<le> c"
  shows "\<exists>indices parts.
      select_indices rng method (int original_size) int_sum = Inr indices
    \<and> (method = ''from_front'' \<longrightarrow> indices = [0..int_sum - 1])
    \<and> (method = ''from_back'' \<longrightarrow>
          indices = rev [int original_size - int_sum..int original_size - 1])
    \<and> (method = ''random'' \<longrightarrow>
          distinct indices \<and> set indices \<subseteq> {0..int original_size - 1}
          \<and> (\<forall>target. distinct target \<and> set target \<subseteq> {0..int original_size - 1}
                 \<and> int (length target) = int_sum \<longrightarrow>
               (\<exists>rng'. select_indices rng' method (int original_size) int_sum = Inr target
                  \<and> split_plan fl rng' original_size fractions method
                      = Inr (make_splits target 0 n_samples))))
    \<and> int (length indices) = int_sum
    \<and> int_sum = sum_list n_samples
    \<and> map (resolved_count fl (int original_size)) fractions = map Inr n_samples
    \<and> splits = map (map Inr) parts
    \<and> concat parts = indices
    \<and> map (\<lambda>p. int (length p)) parts = n_samples"
proof -
  from resolve_Inr[OF assms(2)] have
    ns: "map (resolved_count fl (int original_size)) fractions = map Inr n_samples"
    and isum: "int_sum = sum_list n_samples" by auto
  have nn: "0 \<le> int_sum" unfolding isum using assms(3) by (auto intro: sum_list_nonneg)
  from assms(1,2) have m: "method \<in> set split_types" and lt: "int_sum < int original_size"
    and ne: "0 < length fractions" and b1: "below_one frac_sum"
    by (auto simp: split_plan_def split: if_splits)
  from select_indices_props[OF m nn, of "int original_size" rng] lt obtain indices where
    sel: "select_indices rng method (int original_size) int_sum = Inr indices"
    and ff: "method = ''from_front'' \<longrightarrow> indices = [0..int_sum - 1]"
    and fb: "method = ''from_back'' \<longrightarrow>
          indices = rev [int original_size - int_sum..int original_size - 1]"
    and rd: "method = ''random'' \<longrightarrow>
          distinct indices \<and> set indices \<subseteq> {0..int original_size - 1}"
    and len: "int (length indices) = int_sum"
    by auto
  have reach: "\<exists>rng'. select_indices rng' method (int original_size) int_sum = Inr target
                  \<and> split_plan fl rng' original_size fractions method
                      = Inr (make_splits target 0 n_samples)"
    if r: "method = ''random''"
      and t: "distinct target \<and> set target \<subseteq> {0..int original_size - 1}
                 \<and> int (length target) = int_sum"
    for target
  proof -
    from t have t1: "distinct target" and t2: "set target \<subseteq> {0..int original_size - 1}"
      and t3: "int (length target) = int_sum" by simp_all
    from select_indices_reaches[OF t1 t2] obtain rng' where
      "select_indices rng' ''random'' (int original_size) (int (length target)) = Inr target" ..
    then have s: "select_indices rng' method (int original_size) int_sum = Inr target"
      by (simp only: r t3)
    have "split_plan fl rng' original_size fractions method = Inr (make_splits target 0 n_samples)"
      using ne m b1 lt assms(2) s by (simp add: split_plan_def)
    with s show ?thesis by blast
  qed
  from assms(1,2) sel have sp: "splits = make_splits indices 0 n_samples"
    by (auto simp: split_plan_def split: if_splits)
  from make_splits_parts[OF assms(3), of 0 indices] len isum obtain parts where
    p: "make_splits indices 0 n_samples = map (map Inr) parts"
       "concat parts = take (nat (sum_list n_samples)) (drop (nat 0) indices)"
       "map (\<lambda>p. int (length p)) parts = n_samples"
    by auto
  have cp: "concat parts = indices" using p(2) len isum by simp
  have rd': "method = ''random'' \<longrightarrow>
          distinct indices \<and> set indices \<subseteq> {0..int original_size - 1}
          \<and> (\<forall>target. distinct target \<and> set target \<subseteq> {0..int original_size - 1}
                 \<and> int (length target) = int_sum \<longrightarrow>
               (\<exists>rng'. select_indices rng' method (int original_size) int_sum = Inr target
                  \<and> split_plan fl rng' original_size fractions method
                      = Inr (make_splits target 0 n_samples)))"
  proof (intro impI conjI allI)
    assume r: "method = ''random''"
    from rd r show "distinct indices" by simp
    from rd r show "set indices \<subseteq> {0..int original_size - 1}" by simp
    fix target
    assume "distinct target \<and> set target \<subseteq> {0..int original_size - 1}
                 \<and> int (length target) = int_sum"
    with r show "\<exists>rng'. select_indices rng' method (int original_size) int_sum = Inr target
                  \<and> split_plan fl rng' original_size fractions method
                      = Inr (make_splits target 0 n_samples)"
      by (rule reach)
  qed
  have sp': "splits = map (map Inr) parts" using sp p(1) by simp
  from sel ff fb rd' len isum ns sp' cp p(3) show ?thesis
    by (intro exI[of _ indices] exI[of _ parts] conjI)
qed

theorem split_index_selection_witness:
  "split_plan Finite (\<lambda>k. 7 * k + 3) 10 [PyFloat (Finite (3 / 10)), PyInt 3] ''random''
     = Inr [[Inr 8, Inr 4, Inr 0], [Inr 5, Inr 7, Inr 6]]
   \<and> resolve Finite 10 [PyFloat (Finite (3 / 10)), PyInt 3] (Finite 0) 0 []
       = Inr (Finite (3 / 10), 6, [3, 3])
   \<and> list_all (\<lambda>c. 0 \<le> c) [3, 3 :: int]
   \<and> (\<exists>indices parts.
         select_indices (\<lambda>k. 7 * k + 3) ''random'' 10 6 = Inr indices
       \<and> distinct indices \<and> set indices \<subseteq> {0..9}
       \<and> [[Inr 8, Inr 4, Inr 0], [Inr 5, Inr 7, Inr 6]] = (map (map Inr) parts :: gen list)
       \<and> concat parts = indices
       \<and> map (\<lambda>p. int (length p)) parts = [3, 3 :: int])
   \<and> (\<exists>rng'. select_indices rng' ''random'' 10 6 = Inr [9, 0, 4, 7, 1, 2]
       \<and> split_plan Finite rng' 10 [PyFloat (Finite (3 / 10)), PyInt 3] ''random''
           = Inr [[Inr 9, Inr 0, Inr 4], [Inr 7, Inr 1, Inr 2]])
   \<and> split_plan Finite (\<lambda>k. 0) 10 [PyFloat (Finite (3 / 10)), PyInt 3] ''from_back''
       = Inr [[Inr 9, Inr 8, Inr 7], [Inr 6, Inr 5, Inr 4]]
   \<and> split_plan Finite (\<lambda>k. 0) 10 [PyFloat (Finite (3 / 10)), PyInt 3] ''from_front''
       = Inr [[Inr 0, Inr 1, Inr 2], [Inr 3, Inr 4, Inr 5]]"
proof -
  let ?fr = "[PyFloat (Finite (3 / 10)), PyInt 3]"
  let ?sp = "[[Inr 8, Inr 4, Inr 0], [Inr 5, Inr 7, Inr 6]] :: gen list"
  let ?tg = "[9, 0, 4, 7, 1, 2] :: int list"
  have i10: "int 10 = 10" by simp
  have h1: "split_plan Finite (\<lambda>k. 7 * k + 3) 10 ?fr ''random'' = Inr ?sp" by code_simp
  have h2': "resolve Finite 10 ?fr (Finite 0) 0 [] = Inr (Finite (3 / 10), 6, [3, 3])"
    by code_simp
  then have h2: "resolve Finite (int 10) ?fr (Finite 0) 0 [] = Inr (Finite (3 / 10), 6, [3, 3])"
    by (simp only: i10)
  have h3: "\<forall>c\<in>set [3, 3 :: int]. 0 \<le> c" by simp
  have h3': "list_all (\<lambda>c. 0 \<le> c) [3, 3 :: int]" by simp
  have fb: "split_plan Finite (\<lambda>k. 0) 10 ?fr ''from_back''
       = Inr [[Inr 9, Inr 8, Inr 7], [Inr 6, Inr 5, Inr 4]]" by code_simp
  have ff: "split_plan Finite (\<lambda>k. 0) 10 ?fr ''from_front''
       = Inr [[Inr 0, Inr 1, Inr 2], [Inr 3, Inr 4, Inr 5]]" by code_simp
  have tg: "distinct ?tg \<and> set ?tg \<subseteq> {0..int 10 - 1} \<and> int (length ?tg) = 6" by simp
  have ms: "make_splits ?tg 0 [3, 3] = [[Inr 9, Inr 0, Inr 4], [Inr 7, Inr 1, Inr 2]]"
    by code_simp
  from split_index_selection[OF h1 h2 h3] obtain indices parts where
    sel: "select_indices (\<lambda>k. 7 * k + 3) ''random'' (int 10) 6 = Inr indices"
    and rd: "''random'' = ''random'' \<longrightarrow>
          distinct indices \<and> set indices \<subseteq> {0..int 10 - 1}
          \<and> (\<forall>target. distinct target \<and> set target \<subseteq> {0..int 10 - 1}
                 \<and> int (length target) = 6 \<longrightarrow>
               (\<exists>rng'. select_indices rng' ''random'' (int 10) 6 = Inr target
                  \<and> split_plan Finite rng' 10 ?fr ''random''
                      = Inr (make_splits target 0 [3, 3])))"
    and p1: "?sp = map (map Inr) parts"
    and p2: "concat parts = indices"
    and p3: "map (\<lambda>p. int (length p)) parts = [3, 3]"
    by (elim exE conjE)
  from rd have rd': "distinct indices \<and> set indices \<subseteq> {0..int 10 - 1}
          \<and> (\<forall>target. distinct target \<and> set target \<subseteq> {0..int 10 - 1}
                 \<and> int (length target) = 6 \<longrightarrow>
               (\<exists>rng'. select_indices rng' ''random'' (int 10) 6 = Inr target
                  \<and> split_plan Finite rng' 10 ?fr ''random''
                      = Inr (make_splits target 0 [3, 3])))"
    by (rule mp) (rule refl)
  from rd' have d1: "distinct indices" by (rule conjunct1)
  from rd' have "set indices \<subseteq> {0..int 10 - 1}" by (elim conjE)
  then have d2: "set indices \<subseteq> {0..9}" by simp
  from sel have sel': "select_indices (\<lambda>k. 7 * k + 3) ''random'' 10 6 = Inr indices"
    by (simp only: i10)
  from sel' d1 d2 p1 p2 p3 have c1: "\<exists>indices parts.
         select_indices (\<lambda>k. 7 * k + 3) ''random'' 10 6 = Inr indices
       \<and> distinct indices \<and> set indices \<subseteq> {0..9}
       \<and> ?sp = (map (map Inr) parts :: gen list)
       \<and> concat parts = indices
       \<and> map (\<lambda>p. int (length p)) parts = [3, 3 :: int]"
    by (intro exI[of _ indices] exI[of _ parts] conjI)
  from rd' have "\<forall>target. distinct target \<and> set target \<subseteq> {0..int 10 - 1}
                 \<and> int (length target) = 6 \<longrightarrow>
               (\<exists>rng'. select_indices rng' ''random'' (int 10) 6 = Inr target
                  \<and> split_plan Finite rng' 10 ?fr ''random''
                      = Inr (make_splits target 0 [3, 3]))"
    by (elim conjE)
  then have "distinct ?tg \<and> set ?tg \<subseteq> {0..int 10 - 1} \<and> int (length ?tg) = 6 \<longrightarrow>
               (\<exists>rng'. select_indices rng' ''random'' (int 10) 6 = Inr ?tg
                  \<and> split_plan Finite rng' 10 ?fr ''random''
                      = Inr (make_splits ?tg 0 [3, 3]))"
    by (rule spec)
  from mp[OF this tg] have c2: "\<exists>rng'. select_indices rng' ''random'' 10 6 = Inr ?tg
       \<and> split_plan Finite rng' 10 ?fr ''random''
           = Inr [[Inr 9, Inr 0, Inr 4], [Inr 7, Inr 1, Inr 2]]"
    by (simp only: i10 ms)
  from h1 h2' h3' c1 c2 fb ff show ?thesis by (intro conjI)
qed

section \<open>Properties of the class index and of _do_split\<close>

lemma setdefault_add_keys:
  "map fst (setdefault_add l i cd) = (if l \<in> fst ` set cd then map fst cd else map fst cd @ [l])"
  by (induction cd) (force+)

lemma setdefault_add_distinct:
  "distinct (map fst cd) \<Longrightarrow> distinct (map fst (setdefault_add l i cd))"
  by (simp add: setdefault_add_keys)

lemma setdefault_add_map_of:
  "map_of (setdefault_add l i cd) = (map_of cd)(l \<mapsto> insert i (class_of cd l))"
  by (induction cd) (auto simp: class_of_def fun_eq_iff)

lemma class_of_setdefault_add:
  "class_of (setdefault_add l i cd) k = (if k = l then insert i (class_of cd l) else class_of cd k)"
  by (simp add: class_of_def setdefault_add_map_of)

lemma members_Cons:
  "members ((i, r) # d) lkey l = (if map_of r lkey = Some l then insert i (members d lkey l) else members d lkey l)"
  by (auto simp: members_def)

lemma data_to_class_loop_props:
  assumes "data_to_class_loop d lkey cd = Inr cd'" "distinct (map fst cd)"
  shows "distinct (map fst cd')
    \<and> (\<forall>l. class_of cd' l = class_of cd l \<union> members d lkey l)
    \<and> set (map fst cd') = set (map fst cd) \<union> {l. members d lkey l \<noteq> {}}
    \<and> (\<forall>(i, r)\<in>set d. map_of r lkey \<noteq> None)"
  using assms
proof (induction d lkey cd rule: data_to_class_loop.induct)
  case (1 lkey cd)
  then show ?case by (simp add: members_def)
next
  case (2 idx elem items lkey cd)
  from "2.prems"(1) obtain label where
    lab: "map_of elem lkey = Some label"
    and rec: "data_to_class_loop items lkey (setdefault_add label idx cd) = Inr cd'"
    by (auto simp: py_getitem_def split: option.splits)
  have lab': "py_getitem elem lkey = Inr label" using lab by (simp add: py_getitem_def)
  note IH = "2.IH"[OF lab' rec setdefault_add_distinct[OF "2.prems"(2)]]
  have m: "\<And>l. members ((idx, elem) # items) lkey l
       = (if l = label then insert idx (members items lkey l) else members items lkey l)"
    using lab by (auto simp: members_Cons)
  have "\<forall>l. class_of cd' l = class_of cd l \<union> members ((idx, elem) # items) lkey l"
    using IH by (auto simp: class_of_setdefault_add m)
  moreover have "set (map fst cd') = set (map fst cd) \<union> {l. members ((idx, elem) # items) lkey l \<noteq> {}}"
    using IH by (auto simp: setdefault_add_keys m split: if_splits)
  moreover have "\<forall>(i, r)\<in>set ((idx, elem) # items). map_of r lkey \<noteq> None"
    using IH lab by auto
  ultimately show ?case using IH by blast
qed

lemma members_nonempty_iff:
  "members d lkey l \<noteq> {} \<longleftrightarrow> l \<in> rec_labels lkey (snd ` set d)"
  by (force simp: members_def rec_labels_def)

lemma data_to_class_props:
  assumes "data_to_class d lkey = Inr cd"
  shows "distinct (map fst cd)"
    and "class_of cd l = members d lkey l"
    and "set (map fst cd) = rec_labels lkey (snd ` set d)"
    and "(i, r) \<in> set d \<Longrightarrow> map_of r lkey \<noteq> None"
proof -
  from data_to_class_loop_props[of d lkey "[]" cd] assms have
    p: "distinct (map fst cd)" "\<forall>l. class_of cd l = class_of [] l \<union> members d lkey l"
       "set (map fst cd) = set (map fst ([] :: (val \<times> nat set) list)) \<union> {l. members d lkey l \<noteq> {}}"
       "\<forall>(i, r)\<in>set d. map_of r lkey \<noteq> None"
    by (simp_all add: data_to_class_def)
  show "distinct (map fst cd)" by (rule p(1))
  show "class_of cd l = members d lkey l" using p(2) by (simp add: class_of_def)
  show "set (map fst cd) = rec_labels lkey (snd ` set d)"
    using p(3) by (simp add: members_nonempty_iff)
  show "(i, r) \<in> set d \<Longrightarrow> map_of r lkey \<noteq> None" using p(4) by auto
qed

lemma gather_Inr:
  assumes "gather it cd keys g = Inr idxs"
  shows "\<exists>ls. length ls = length g \<and> set ls \<subseteq> set keys \<and> set ls \<subseteq> fst ` set cd
     \<and> idxs = concat (map (\<lambda>l. it (class_of cd l)) ls)"
  using assms
proof (induction it cd keys g arbitrary: idxs rule: gather.induct)
  case (1 it cd keys)
  then show ?case by simp
next
  case (2 it cd keys e split)
  then show ?case by simp
next
  case (3 it cd keys i split)
  from "3.prems" obtain k items rest where
    k: "py_index keys i = Inr k" and items: "py_getitem cd k = Inr items"
    and rest: "gather it cd keys split = Inr rest" and idxs: "idxs = it items @ rest"
    by (auto split: sum.splits)
  from "3.IH"[OF k items rest] obtain ls where
    ls: "length ls = length split" "set ls \<subseteq> set keys" "set ls \<subseteq> fst ` set cd"
        "rest = concat (map (\<lambda>l. it (class_of cd l)) ls)"
    by blast
  have kin: "k \<in> set keys" using k by (auto simp: py_index_def split: if_splits)
  have m: "map_of cd k = Some items" using items by (auto simp: py_getitem_def split: option.splits)
  then have kcd: "k \<in> fst ` set cd" by (metis domI dom_map_of_conv_image_fst)
  have "items = class_of cd k" using m by (simp add: class_of_def)
  then show ?case using ls kin kcd idxs
    by (intro exI[of _ "k # ls"]) simp
qed

lemma delete_filter: "AList.delete k d = filter (\<lambda>kv. fst kv \<noteq> k) d"
  by (induction d) auto

lemma pop_all_Inr:
  assumes "pop_all idxs d = (Inr vs, d')"
  shows "distinct idxs \<and> set idxs \<subseteq> fst ` set d
     \<and> d' = filter (\<lambda>kv. fst kv \<notin> set idxs) d
     \<and> vs = map (\<lambda>i. the (map_of d i)) idxs"
  using assms
proof (induction idxs d arbitrary: vs d' rule: pop_all.induct)
  case (1 d)
  then show ?case by simp
next
  case (2 i idxs d)
  from "2.prems" obtain v vs0 where
    v: "map_of d i = Some v" and rec: "pop_all idxs (AList.delete i d) = (Inr vs0, d')"
    and vs: "vs = v # vs0"
    by (auto split: option.splits prod.splits sum.splits)
  from "2.IH"[OF v rec] have IH:
    "distinct idxs" "set idxs \<subseteq> fst ` set (AList.delete i d)"
    "d' = filter (\<lambda>kv. fst kv \<notin> set idxs) (AList.delete i d)"
    "vs0 = map (\<lambda>j. the (map_of (AList.delete i d) j)) idxs"
    by auto
  have ni: "i \<notin> set idxs" using IH(2) by (auto simp: delete_filter)
  have iin: "i \<in> fst ` set d" using v by (metis domI dom_map_of_conv_image_fst)
  have sub: "set idxs \<subseteq> fst ` set d" using IH(2) by (auto simp: delete_filter)
  have e1: "vs0 = map (\<lambda>j. the (map_of d j)) idxs"
    using IH(4) ni by (auto simp: AList.delete_conv)
  have e2: "d' = filter (\<lambda>kv. fst kv \<notin> set (i # idxs)) d"
    unfolding IH(3) delete_filter filter_filter by (rule filter_cong) auto
  have e3: "vs = map (\<lambda>j. the (map_of d j)) (i # idxs)" using e1 v vs by simp
  have e4: "distinct (i # idxs)" using IH(1) ni by simp
  have e5: "set (i # idxs) \<subseteq> fst ` set d" using sub iin by simp
  from e4 e5 e2 e3 show ?case by (intro conjI)
qed

lemma pop_all_mset:
  assumes "pop_all idxs d = (Inr vs, d')" "distinct (map fst d)"
  shows "mset (map snd d) = mset (map snd d') + mset vs"
  using assms
proof (induction idxs d arbitrary: vs d' rule: pop_all.induct)
  case (1 d)
  then show ?case by simp
next
  case (2 i idxs d)
  from "2.prems" obtain v vs0 where
    v: "map_of d i = Some v" and rec: "pop_all idxs (AList.delete i d) = (Inr vs0, d')"
    and vs: "vs = v # vs0"
    by (auto split: option.splits prod.splits sum.splits)
  have dd: "distinct (map fst (AList.delete i d))" using "2.prems"(2) by (rule distinct_delete)
  have "mset (map snd d) = {#v#} + mset (map snd (AList.delete i d))"
    using v "2.prems"(2)
  proof (induction d)
    case Nil then show ?case by simp
  next
    case (Cons a d)
    show ?case
    proof (cases "fst a = i")
      case True
      then have "i \<notin> fst ` set d" using Cons.prems(2) by auto
      then have "AList.delete i d = d" by (simp add: delete_filter filter_id_conv) auto
      then show ?thesis using True Cons.prems by (cases a) (auto)
    next
      case False
      then show ?thesis using Cons by (cases a) (auto)
    qed
  qed
  then show ?case using "2.IH"[OF v rec dd] vs by simp
qed

lemma distinct_concat_nonempty:
  "distinct (concat (map f ls)) \<Longrightarrow> \<forall>l\<in>set ls. f l \<noteq> [] \<Longrightarrow> distinct ls"
proof (induction ls)
  case Nil
  show ?case by simp
next
  case (Cons a ls)
  from Cons.prems(1) have d1: "distinct (concat (map f ls))"
    and d2: "set (f a) \<inter> set (concat (map f ls)) = {}"
    by simp_all
  from Cons.prems(2) have ne: "f a \<noteq> []" and ne': "\<forall>l\<in>set ls. f l \<noteq> []" by simp_all
  from ne obtain x where x: "x \<in> set (f a)" by (cases "f a") auto
  have "a \<notin> set ls"
  proof
    assume "a \<in> set ls"
    with x have "x \<in> set (concat (map f ls))" by auto
    with x d2 show False by blast
  qed
  moreover have "distinct ls" using Cons.IH[OF d1 ne'] .
  ultimately show ?case by simp
qed

lemma class_of_member:
  "distinct (map fst cd) \<Longrightarrow> (k, s) \<in> set cd \<Longrightarrow> class_of cd k = s"
  by (simp add: class_of_def)

lemma pairwise_disjoint_classes:
  assumes "distinct (map fst cd)"
    and "\<And>k k'. k \<noteq> k' \<Longrightarrow> class_of cd k \<inter> class_of cd k' = {}"
  shows "pairwise_disjoint (map snd cd)"
  using assms
proof (induction cd)
  case Nil
  show ?case by simp
next
  case (Cons a cd)
  obtain k s where a: "a = (k, s)" by (cases a)
  have dk: "k \<notin> fst ` set cd" and dcd: "distinct (map fst cd)"
    using Cons.prems(1) a by auto
  have co: "\<And>k'. k' \<in> fst ` set cd \<Longrightarrow> class_of (a # cd) k' = class_of cd k'"
    using dk a by (auto simp: class_of_def)
  have "pairwise_disjoint (map snd cd)"
  proof (rule Cons.IH[OF dcd])
    fix k1 k2 :: val assume ne: "k1 \<noteq> k2"
    show "class_of cd k1 \<inter> class_of cd k2 = {}"
    proof (cases "k1 \<in> fst ` set cd \<and> k2 \<in> fst ` set cd")
      case True
      then show ?thesis using Cons.prems(2)[OF ne] co by simp
    next
      case False
      then have "map_of cd k1 = None \<or> map_of cd k2 = None"
        by (auto simp: map_of_eq_None_iff)
      then show ?thesis by (auto simp: class_of_def)
    qed
  qed
  moreover have "\<forall>t\<in>set (map snd cd). s \<inter> t = {}"
  proof
    fix t assume "t \<in> set (map snd cd)"
    then obtain k' where k': "(k', t) \<in> set cd" by auto
    then have k'in: "k' \<in> fst ` set cd" by force
    with dk have ne: "k \<noteq> k'" by auto
    have "class_of (a # cd) k = s" using a by (simp add: class_of_def)
    moreover have "class_of (a # cd) k' = t"
      using co[OF k'in] class_of_member[OF dcd k'] by simp
    ultimately show "s \<inter> t = {}" using Cons.prems(2)[OF ne] by simp
  qed
  ultimately show ?case using a by simp
qed

lemma members_disjoint:
  assumes "distinct (map fst d)" "k \<noteq> k'"
  shows "members d lkey k \<inter> members d lkey k' = {}"
proof -
  { fix i assume "i \<in> members d lkey k" "i \<in> members d lkey k'"
    then obtain r r' where r: "(i, r) \<in> set d" "map_of r lkey = Some k"
      and r': "(i, r') \<in> set d" "map_of r' lkey = Some k'"
      by (auto simp: members_def)
    from assms(1) r(1) r'(1) have "r = r'" by (meson eq_key_imp_eq_value)
    with r(2) r'(2) assms(2) have False by simp }
  then show ?thesis by blast
qed

lemma members_Union:
  assumes "\<And>i r. (i, r) \<in> set d \<Longrightarrow> map_of r lkey \<noteq> None"
  shows "(\<Union>l. members d lkey l) = fst ` set d"
proof
  show "(\<Union>l. members d lkey l) \<subseteq> fst ` set d" by (force simp: members_def)
  show "fst ` set d \<subseteq> (\<Union>l. members d lkey l)"
  proof
    fix i assume "i \<in> fst ` set d"
    then obtain r where r: "(i, r) \<in> set d" by auto
    with assms obtain l where "map_of r lkey = Some l" by blast
    with r have "i \<in> members d lkey l" by (auto simp: members_def)
    then show "i \<in> (\<Union>l. members d lkey l)" by blast
  qed
qed

lemma well_formed_class_index_inv:
  assumes "well_formed self"
  shows "class_index_inv self"
proof -
  let ?d = "data self" and ?cd = "class_data self" and ?lk = "label_key self"
  from assms have dd: "distinct (map fst ?d)" and dtc: "data_to_class ?d ?lk = Inr ?cd"
    by (simp_all add: well_formed_def)
  note p = data_to_class_props[OF dtc]
  have pd: "pairwise_disjoint (map snd ?cd)"
  proof (rule pairwise_disjoint_classes[OF p(1)])
    fix k k' :: val assume "k \<noteq> k'"
    then show "class_of ?cd k \<inter> class_of ?cd k' = {}"
      using members_disjoint[OF dd] by (simp add: p(2))
  qed
  have "\<Union> (set (map snd ?cd)) = (\<Union>l. class_of ?cd l)"
  proof
    show "\<Union> (set (map snd ?cd)) \<subseteq> (\<Union>l. class_of ?cd l)"
    proof
      fix i assume "i \<in> \<Union> (set (map snd ?cd))"
      then obtain k s where ks: "(k, s) \<in> set ?cd" "i \<in> s" by auto
      then have "i \<in> class_of ?cd k" using class_of_member[OF p(1) ks(1)] by simp
      then show "i \<in> (\<Union>l. class_of ?cd l)" by blast
    qed
    show "(\<Union>l. class_of ?cd l) \<subseteq> \<Union> (set (map snd ?cd))"
    proof
      fix i assume "i \<in> (\<Union>l. class_of ?cd l)"
      then obtain l where l: "i \<in> class_of ?cd l" by blast
      then obtain s where s: "map_of ?cd l = Some s" "i \<in> s"
        by (auto simp: class_of_def split: option.splits)
      then have "(l, s) \<in> set ?cd" by (meson map_of_SomeD)
      with s(2) show "i \<in> \<Union> (set (map snd ?cd))" by force
    qed
  qed
  also have "\<dots> = (\<Union>l. members ?d ?lk l)" by (simp add: p(2))
  also have "\<dots> = fst ` set ?d" by (rule members_Union) (rule p(4))
  finally show ?thesis using pd by (simp add: class_index_inv_def)
qed

lemma enumerate_keys: "map fst (enumerate 0 vs) = [0..<length vs]"
  by (simp add: enumerate_eq_zip)

lemma do_split_loop_results:
  assumes "do_split_loop it s gens acc = (Inr rs, s')"
    and "\<forall>r\<in>set acc. keys_contiguous r \<and> well_formed r"
  shows "(\<forall>r\<in>set rs. keys_contiguous r \<and> well_formed r) \<and> label_key s' = label_key s"
  using assms
proof (induction it s gens acc rule: do_split_loop.induct)
  case (1 it s acc)
  then show ?case by simp
next
  case (2 it s g gens acc)
  from "2.prems"(1) obtain keys idxs vs d' cd where
    k: "py_sorted (map fst (class_data s)) = Inr keys"
    and g: "gather it (class_data s) keys g = Inr idxs"
    and p: "pop_all idxs (data s) = (Inr vs, d')"
    and c: "data_to_class (enumerate 0 vs) (label_key s) = Inr cd"
    and rec: "do_split_loop it (s\<lparr>data := d'\<rparr>) gens
        (acc @ [skip_init (s\<lparr>data := d'\<rparr>) (enumerate 0 vs) cd]) = (Inr rs, s')"
    by (auto split: sum.splits prod.splits)
  let ?r = "skip_init (s\<lparr>data := d'\<rparr>) (enumerate 0 vs) cd"
  have "keys_contiguous ?r"
    by (simp add: keys_contiguous_def skip_init_def enumerate_keys)
  moreover have "well_formed ?r"
    using c by (simp add: well_formed_def skip_init_def enumerate_keys)
  ultimately have "\<forall>r\<in>set (acc @ [?r]). keys_contiguous r \<and> well_formed r"
    using "2.prems"(2) by simp
  from "2.IH"[OF k g p[symmetric] refl c rec this] show ?case by simp
qed

lemma do_split_results:
  assumes "do_split it self gens = (Inr rs, self')"
  shows "keys_contiguous self' \<and> well_formed self'
     \<and> (\<forall>r\<in>set rs. keys_contiguous r \<and> well_formed r)"
proof -
  from assms obtain s1 cd where
    l: "do_split_loop it self gens [] = (Inr rs, s1)"
    and c: "data_to_class (enumerate 0 (map snd (data s1))) (label_key s1) = Inr cd"
    and s': "self' = s1\<lparr>data := enumerate 0 (map snd (data s1)), class_data := cd\<rparr>"
    by (auto simp: do_split_def Let_def split: sum.splits prod.splits)
  from do_split_loop_results[OF l] have rs: "\<forall>r\<in>set rs. keys_contiguous r \<and> well_formed r"
    by simp
  have "keys_contiguous self'" using s' by (simp add: keys_contiguous_def enumerate_keys)
  moreover have "well_formed self'" using s' c by (simp add: well_formed_def enumerate_keys)
  ultimately show ?thesis using rs by simp
qed

lemma fe_split_results:
  assumes "fe_split len dsplit fl rng self fractions method = (Inr res, self')"
  shows "\<exists>gens rs. split_plan fl rng (len self) fractions method = Inr gens
     \<and> dsplit self gens = (Inr rs, self')
     \<and> (if length fractions = 1 then rs \<noteq> [] \<and> res = Single (hd rs) else res = Many rs)"
proof -
  from assms obtain gens rs where
    pl: "split_plan fl rng (len self) fractions method = Inr gens"
    and ds: "dsplit self gens = (Inr rs, self')"
    and r: "if length fractions = 1 then py_index rs 0 = Inr (hd rs) \<and> rs \<noteq> [] \<and> res = Single (hd rs) else res = Many rs"
    by (auto simp: fe_split_def py_index_def hd_conv_nth split: sum.splits prod.splits if_splits)
  then show ?thesis by (intro exI[of _ gens] exI[of _ rs]) (auto split: if_splits)
qed

lemma fe_split_ret_list:
  assumes "fe_split len dsplit fl rng self fractions method = (Inr res, self')"
  shows "\<exists>gens rs. split_plan fl rng (len self) fractions method = Inr gens
     \<and> dsplit self gens = (Inr rs, self') \<and> set (ret_list res) \<subseteq> set rs"
  using fe_split_results[OF assms] by (auto split: if_splits)

lemma map_of_distinct_the:
  "distinct (map fst d) \<Longrightarrow> (i, r) \<in> set d \<Longrightarrow> the (map_of d i) = r"
  by simp

lemma enumerate_values: "snd ` set (enumerate 0 vs) = set vs"
proof -
  have "set (map snd (enumerate 0 vs)) = set vs" by (simp only: map_snd_enumerate)
  then show ?thesis by (simp only: set_map)
qed

lemma step_facts:
  assumes dd0: "distinct (map fst d0)" and dtc0: "data_to_class d0 lkey = Inr cd0"
    and itok: "\<forall>s\<in>snd ` set cd0. lists_set it s"
    and g: "gather it cd0 keys gen = Inr idxs"
    and p: "pop_all idxs (filter (\<lambda>kv. fst kv \<notin> \<Union>(class_of cd0 ` L)) d0) = (Inr vs, d')"
    and c: "data_to_class (enumerate 0 vs) lkey = Inr cd"
  shows "\<exists>ls. set ls \<inter> L = {} \<and> set ls \<subseteq> set (map fst cd0) \<and> distinct ls
      \<and> length ls = length gen
      \<and> d' = filter (\<lambda>kv. fst kv \<notin> \<Union>(class_of cd0 ` (L \<union> set ls))) d0
      \<and> set (map fst cd) = set ls \<and> distinct (map fst cd) \<and> length cd = length gen"
proof -
  define dcur where "dcur = filter (\<lambda>kv. fst kv \<notin> \<Union>(class_of cd0 ` L)) d0"
  define f where "f = (\<lambda>l. it (class_of cd0 l))"
  from gather_Inr[OF g] obtain ls where
    len: "length ls = length gen" and sub: "set ls \<subseteq> fst ` set cd0"
    and idxs: "idxs = concat (map f ls)"
    unfolding f_def by blast
  note p0 = data_to_class_props[OF dtc0]
  have itset: "set (f l) = class_of cd0 l" if "l \<in> fst ` set cd0" for l
  proof -
    from that obtain s where s: "(l, s) \<in> set cd0" by auto
    then have "class_of cd0 l = s" by (rule class_of_member[OF p0(1)])
    moreover from s itok have "lists_set it s" by force
    ultimately show ?thesis by (simp add: f_def lists_set_def)
  qed
  have ne: "class_of cd0 l \<noteq> {}" if "l \<in> fst ` set cd0" for l
  proof -
    from that have "l \<in> set (map fst cd0)" by simp
    then have "l \<in> rec_labels lkey (snd ` set d0)" by (simp only: p0(3))
    then show ?thesis by (simp only: p0(2) members_nonempty_iff) 
  qed
  have p': "pop_all idxs dcur = (Inr vs, d')" using p by (simp add: dcur_def)
  from pop_all_Inr[OF p'] have
    di: "distinct idxs" and si: "set idxs \<subseteq> fst ` set dcur"
    and d': "d' = filter (\<lambda>kv. fst kv \<notin> set idxs) dcur"
    and vs: "vs = map (\<lambda>i. the (map_of dcur i)) idxs"
    by simp_all
  have fne: "\<forall>l\<in>set ls. f l \<noteq> []"
  proof
    fix l assume "l \<in> set ls"
    with sub have l: "l \<in> fst ` set cd0" by auto
    from itset[OF l] ne[OF l] show "f l \<noteq> []" by auto
  qed
  have dls: "distinct ls" using di fne unfolding idxs by (rule distinct_concat_nonempty)
  have setidx: "set idxs = \<Union>(class_of cd0 ` set ls)"
  proof -
    have "set idxs = (\<Union>l\<in>set ls. set (f l))" unfolding idxs by simp
    also have "\<dots> = (\<Union>l\<in>set ls. class_of cd0 l)"
    proof (rule SUP_cong[OF refl])
      fix l assume "l \<in> set ls"
      with sub have "l \<in> fst ` set cd0" by auto
      then show "set (f l) = class_of cd0 l" by (rule itset)
    qed
    finally show ?thesis by simp
  qed
  have disj: "set ls \<inter> L = {}"
  proof (rule ccontr)
    assume "set ls \<inter> L \<noteq> {}"
    then obtain l where l: "l \<in> set ls" "l \<in> L" by blast
    with sub have "l \<in> fst ` set cd0" by auto
    from ne[OF this] obtain i where i: "i \<in> class_of cd0 l" by blast
    with l(1) setidx have "i \<in> set idxs" by blast
    with si have "i \<in> fst ` set dcur" by blast
    then have "i \<notin> \<Union>(class_of cd0 ` L)" by (auto simp: dcur_def)
    with i l(2) show False by blast
  qed
  have d'eq: "d' = filter (\<lambda>kv. fst kv \<notin> \<Union>(class_of cd0 ` (L \<union> set ls))) d0"
    unfolding d' dcur_def filter_filter setidx by (rule filter_cong) auto
  have rec: "the (map_of dcur i) = the (map_of d0 i)" if "i \<in> set idxs" for i
  proof -
    from that si obtain r where r: "(i, r) \<in> set dcur" by auto
    have "distinct (map fst dcur)" unfolding dcur_def using dd0 by (rule distinct_map_filter)
    then have "the (map_of dcur i) = r" using r by (rule map_of_distinct_the)
    moreover from r have "(i, r) \<in> set d0" by (simp add: dcur_def)
    then have "the (map_of d0 i) = r" by (rule map_of_distinct_the[OF dd0])
    ultimately show ?thesis by simp
  qed
  have lab: "map_of (the (map_of d0 i)) lkey = Some l" if "i \<in> class_of cd0 l" for i l
  proof -
    from that have "i \<in> members d0 lkey l" by (simp only: p0(2))
    then obtain r where r: "(i, r) \<in> set d0" "map_of r lkey = Some l"
      by (auto simp: members_def)
    from map_of_distinct_the[OF dd0 r(1)] r(2) show ?thesis by simp
  qed
  have "rec_labels lkey (set vs) = set ls"
  proof
    show "rec_labels lkey (set vs) \<subseteq> set ls"
    proof
      fix l' assume "l' \<in> rec_labels lkey (set vs)"
      then obtain i where i: "i \<in> set idxs" "map_of (the (map_of dcur i)) lkey = Some l'"
        by (auto simp: rec_labels_def vs)
      from i(1) setidx obtain l where l: "l \<in> set ls" "i \<in> class_of cd0 l" by blast
      from lab[OF l(2)] i(2) rec[OF i(1)] have "l' = l" by simp
      with l(1) show "l' \<in> set ls" by simp
    qed
    show "set ls \<subseteq> rec_labels lkey (set vs)"
    proof
      fix l assume l: "l \<in> set ls"
      with sub have "l \<in> fst ` set cd0" by auto
      from ne[OF this] obtain i where i: "i \<in> class_of cd0 l" by blast
      with l setidx have ii: "i \<in> set idxs" by blast
      then have "the (map_of dcur i) \<in> set vs" by (simp add: vs)
      moreover have "map_of (the (map_of dcur i)) lkey = Some l"
        using lab[OF i] rec[OF ii] by simp
      ultimately show "l \<in> rec_labels lkey (set vs)" unfolding rec_labels_def by blast
    qed
  qed
  moreover note pc = data_to_class_props[OF c]
  ultimately have sk: "set (map fst cd) = set ls" by (simp only: pc(3) enumerate_values)
  have "length cd = length (map fst cd)" by simp
  also have "\<dots> = card (set (map fst cd))" using pc(1) by (simp only: distinct_card)
  also have "\<dots> = card (set ls)" by (simp only: sk)
  also have "\<dots> = length ls" using dls by (rule distinct_card)
  finally have lc: "length cd = length gen" using len by simp
  have sub': "set ls \<subseteq> set (map fst cd0)" using sub by simp
  from disj sub' dls len d'eq sk pc(1) lc show ?thesis by (intro exI[of _ ls] conjI)
qed

lemma all_labels_snoc: "all_labels (acc @ [r]) = all_labels acc @ map fst (class_data r)"
  by (simp add: all_labels_def)

lemma do_split_loop_partition:
  assumes dd0: "distinct (map fst d0)" and dtc0: "data_to_class d0 lkey = Inr cd0"
    and itok: "\<forall>s\<in>snd ` set cd0. lists_set it s"
    and st: "class_data s = cd0" "label_key s = lkey"
      "data s = filter (\<lambda>kv. fst kv \<notin> \<Union>(class_of cd0 ` L)) d0"
    and acc: "set (all_labels acc) = L" "distinct (all_labels acc)" "L \<subseteq> set (map fst cd0)"
    and run: "do_split_loop it s gens acc = (Inr rs, s')"
  shows "\<exists>L'. L' \<subseteq> set (map fst cd0)
     \<and> data s' = filter (\<lambda>kv. fst kv \<notin> \<Union>(class_of cd0 ` L')) d0
     \<and> label_key s' = lkey
     \<and> set (all_labels rs) = L' \<and> distinct (all_labels rs)
     \<and> map (\<lambda>r. length (class_data r)) rs = map (\<lambda>r. length (class_data r)) acc @ map length gens"
  using itok st acc run
proof (induction it s gens acc arbitrary: L rule: do_split_loop.induct)
  case (1 it s acc)
  then show ?case by (intro exI[of _ L]) simp
next
  case (2 it s g gens acc)
  from "2.prems"(8) obtain keys idxs vs d' cd where
    k: "py_sorted (map fst (class_data s)) = Inr keys"
    and g: "gather it (class_data s) keys g = Inr idxs"
    and p: "pop_all idxs (data s) = (Inr vs, d')"
    and c: "data_to_class (enumerate 0 vs) (label_key s) = Inr cd"
    and rec: "do_split_loop it (s\<lparr>data := d'\<rparr>) gens
        (acc @ [skip_init (s\<lparr>data := d'\<rparr>) (enumerate 0 vs) cd]) = (Inr rs, s')"
    by (auto split: sum.splits prod.splits)
  let ?r = "skip_init (s\<lparr>data := d'\<rparr>) (enumerate 0 vs) cd"
  have g': "gather it cd0 keys g = Inr idxs" using g "2.prems"(2) by simp
  have p': "pop_all idxs (filter (\<lambda>kv. fst kv \<notin> \<Union>(class_of cd0 ` L)) d0) = (Inr vs, d')"
    using p "2.prems"(4) by simp
  have c': "data_to_class (enumerate 0 vs) lkey = Inr cd" using c "2.prems"(3) by simp
  from step_facts[OF dd0 dtc0 "2.prems"(1) g' p' c'] obtain ls where
    ls: "set ls \<inter> L = {}" "set ls \<subseteq> set (map fst cd0)" "distinct ls" "length ls = length g"
      "d' = filter (\<lambda>kv. fst kv \<notin> \<Union>(class_of cd0 ` (L \<union> set ls))) d0"
      "set (map fst cd) = set ls" "distinct (map fst cd)" "length cd = length g"
    by blast
  have rcd: "class_data ?r = cd" by (simp add: skip_init_def)
  have a1: "set (all_labels (acc @ [?r])) = L \<union> set ls"
    using "2.prems"(5) ls(6) by (simp add: all_labels_snoc rcd)
  have a2: "distinct (all_labels (acc @ [?r]))"
    using "2.prems"(5,6) ls(1,6,7) by (simp add: all_labels_snoc rcd) blast
  have a3: "L \<union> set ls \<subseteq> set (map fst cd0)" using "2.prems"(7) ls(2) by simp
  have s1: "class_data (s\<lparr>data := d'\<rparr>) = cd0" using "2.prems"(2) by simp
  have s2: "label_key (s\<lparr>data := d'\<rparr>) = lkey" using "2.prems"(3) by simp
  have s3: "data (s\<lparr>data := d'\<rparr>) = filter (\<lambda>kv. fst kv \<notin> \<Union>(class_of cd0 ` (L \<union> set ls))) d0"
    using ls(5) by simp
  from "2.IH"[OF k g p[symmetric] refl c "2.prems"(1) s1 s2 s3 a1 a2 a3 rec] obtain L' where
    L': "L' \<subseteq> set (map fst cd0)"
      "data s' = filter (\<lambda>kv. fst kv \<notin> \<Union>(class_of cd0 ` L')) d0"
      "label_key s' = lkey"
      "set (all_labels rs) = L'" "distinct (all_labels rs)"
      "map (\<lambda>r. length (class_data r)) rs
         = map (\<lambda>r. length (class_data r)) (acc @ [?r]) @ map length gens"
    by blast
  have "map (\<lambda>r. length (class_data r)) rs
         = map (\<lambda>r. length (class_data r)) acc @ map length (g # gens)"
    using L'(6) ls(8) by (simp add: rcd)
  with L'(1-5) show ?case by (intro exI[of _ L'] conjI)
qed

lemma remaining_labels:
  assumes dd0: "distinct (map fst d0)" and dtc0: "data_to_class d0 lkey = Inr cd0"
  shows "rec_labels lkey (snd ` set (filter (\<lambda>kv. fst kv \<notin> \<Union>(class_of cd0 ` L)) d0))
     = set (map fst cd0) - L"
proof
  note p0 = data_to_class_props[OF dtc0]
  let ?keep = "filter (\<lambda>kv. fst kv \<notin> \<Union>(class_of cd0 ` L)) d0"
  show "rec_labels lkey (snd ` set ?keep) \<subseteq> set (map fst cd0) - L"
  proof
    fix l assume "l \<in> rec_labels lkey (snd ` set ?keep)"
    then obtain i r where r: "(i, r) \<in> set d0" "i \<notin> \<Union>(class_of cd0 ` L)"
      "map_of r lkey = Some l"
      by (auto simp: rec_labels_def)
    from r(1,3) have "i \<in> members d0 lkey l" by (auto simp: members_def)
    then have "i \<in> class_of cd0 l" by (simp only: p0(2))
    with r(2) have "l \<notin> L" by blast
    moreover from r(1,3) have "l \<in> rec_labels lkey (snd ` set d0)"
      by (force simp: rec_labels_def)
    then have "l \<in> set (map fst cd0)" by (simp only: p0(3))
    ultimately show "l \<in> set (map fst cd0) - L" by simp
  qed
  show "set (map fst cd0) - L \<subseteq> rec_labels lkey (snd ` set ?keep)"
  proof
    fix l assume l: "l \<in> set (map fst cd0) - L"
    then have "l \<in> rec_labels lkey (snd ` set d0)" by (simp only: p0(3)) simp
    then obtain i r where r: "(i, r) \<in> set d0" "map_of r lkey = Some l"
      by (auto simp: rec_labels_def)
    then have im: "i \<in> members d0 lkey l" by (auto simp: members_def)
    have "i \<notin> \<Union>(class_of cd0 ` L)"
    proof
      assume "i \<in> \<Union>(class_of cd0 ` L)"
      then obtain l' where l': "l' \<in> L" "i \<in> class_of cd0 l'" by blast
      then have "i \<in> members d0 lkey l'" by (simp only: p0(2))
      moreover from l l'(1) have "l \<noteq> l'" by blast
      ultimately show False using members_disjoint[OF dd0, of l l' lkey] im by blast
    qed
    with r(1) have "(i, r) \<in> set ?keep" by simp
    then have "r \<in> snd ` set ?keep" by force
    with r(2) show "l \<in> rec_labels lkey (snd ` set ?keep)" unfolding rec_labels_def by blast
  qed
qed

lemma do_split_partition:
  assumes wf: "well_formed self"
    and itok: "\<forall>s\<in>snd ` set (class_data self). lists_set it s"
    and run: "do_split it self gens = (Inr rs, self')"
  shows "map (\<lambda>r. length (class_data r)) rs = map length gens"
    and "distinct (all_labels (self' # rs))"
    and "set (all_labels (self' # rs)) = set (map fst (class_data self))"
proof -
  let ?d0 = "data self" and ?cd0 = "class_data self" and ?lk = "label_key self"
  from wf have dd0: "distinct (map fst ?d0)" and dtc0: "data_to_class ?d0 ?lk = Inr ?cd0"
    by (simp_all add: well_formed_def)
  from run obtain s1 cd' where
    l: "do_split_loop it self gens [] = (Inr rs, s1)"
    and c: "data_to_class (enumerate 0 (map snd (data s1))) (label_key s1) = Inr cd'"
    and s': "self' = s1\<lparr>data := enumerate 0 (map snd (data s1)), class_data := cd'\<rparr>"
    by (auto simp: do_split_def Let_def split: sum.splits prod.splits)
  have st3: "?d0 = filter (\<lambda>kv. fst kv \<notin> \<Union>(class_of ?cd0 ` {})) ?d0" by simp
  have a1: "set (all_labels []) = {}" and a2: "distinct (all_labels [])"
    by (simp_all add: all_labels_def)
  have a3: "{} \<subseteq> set (map fst ?cd0)" by simp
  note ex = do_split_loop_partition[where L = "{}" and s = self and acc = "[]",
          OF dd0 dtc0 itok refl refl st3 a1 a2 a3 l]
  from ex obtain L' where
    L': "L' \<subseteq> set (map fst ?cd0)"
      "data s1 = filter (\<lambda>kv. fst kv \<notin> \<Union>(class_of ?cd0 ` L')) ?d0"
      "label_key s1 = ?lk"
      "set (all_labels rs) = L'" "distinct (all_labels rs)"
      "map (\<lambda>r. length (class_data r)) rs
         = map (\<lambda>r. length (class_data r)) ([] :: siamese list) @ map length gens"
    by (elim exE conjE)
  show "map (\<lambda>r. length (class_data r)) rs = map length gens" using L'(6) by simp
  note pc = data_to_class_props[OF c]
  have "set (map fst cd') = rec_labels (label_key s1) (set (map snd (data s1)))"
    by (simp only: pc(3) enumerate_values)
  also have "\<dots> = rec_labels ?lk (snd ` set (data s1))" by (simp only: L'(3) set_map)
  also have "\<dots> = set (map fst ?cd0) - L'"
    unfolding L'(2) by (rule remaining_labels[OF dd0 dtc0])
  finally have k: "set (map fst cd') = set (map fst ?cd0) - L'" .
  have al: "all_labels (self' # rs) = map fst cd' @ all_labels rs"
    by (simp add: all_labels_def s')
  have i: "set (map fst cd') \<inter> set (all_labels rs) = {}"
    unfolding k L'(4) by blast
  show "distinct (all_labels (self' # rs))"
    unfolding al distinct_append using pc(1) L'(5) i by (intro conjI)
  have "set (map fst cd' @ all_labels rs) = (set (map fst ?cd0) - L') \<union> L'"
    unfolding set_append k L'(4) ..
  also have "\<dots> = set (map fst ?cd0)" using L'(1) by blast
  finally show "set (all_labels (self' # rs)) = set (map fst ?cd0)" unfolding al .
qed

lemma do_split_loop_mset:
  assumes "do_split_loop it s gens acc = (Inr rs, s')" "distinct (map fst (data s))"
  shows "mset (map snd (data s)) + (\<Sum>r\<leftarrow>acc. mset (map snd (data r)))
     = mset (map snd (data s')) + (\<Sum>r\<leftarrow>rs. mset (map snd (data r)))"
  using assms
proof (induction it s gens acc rule: do_split_loop.induct)
  case (1 it s acc)
  then show ?case by simp
next
  case (2 it s g gens acc)
  from "2.prems"(1) obtain keys idxs vs d' cd where
    k: "py_sorted (map fst (class_data s)) = Inr keys"
    and g: "gather it (class_data s) keys g = Inr idxs"
    and p: "pop_all idxs (data s) = (Inr vs, d')"
    and c: "data_to_class (enumerate 0 vs) (label_key s) = Inr cd"
    and rec: "do_split_loop it (s\<lparr>data := d'\<rparr>) gens
        (acc @ [skip_init (s\<lparr>data := d'\<rparr>) (enumerate 0 vs) cd]) = (Inr rs, s')"
    by (auto split: sum.splits prod.splits)
  let ?r = "skip_init (s\<lparr>data := d'\<rparr>) (enumerate 0 vs) cd"
  let ?A = "\<Sum>r\<leftarrow>acc. mset (map snd (data r))"
  have ds: "data (s\<lparr>data := d'\<rparr>) = d'" by simp
  from pop_all_Inr[OF p] have "d' = filter (\<lambda>kv. fst kv \<notin> set idxs) (data s)" by simp
  then have "distinct (map fst d')" using "2.prems"(2) by (simp add: distinct_map_filter)
  then have dd': "distinct (map fst (data (s\<lparr>data := d'\<rparr>)))" by (simp only: ds)
  have m: "mset (map snd (data s)) = mset (map snd d') + mset vs"
    using p "2.prems"(2) by (rule pop_all_mset)
  have "data ?r = enumerate 0 vs" by (simp add: skip_init_def)
  then have rv: "map snd (data ?r) = vs" by (simp only: map_snd_enumerate)
  have sn: "(\<Sum>r\<leftarrow>acc @ [?r]. mset (map snd (data r))) = ?A + mset vs"
    by (simp only: map_append list.map sum_list_append sum_list.Cons sum_list.Nil rv add_0_right)
  note IH = "2.IH"[OF k g p[symmetric] refl c rec dd', unfolded ds sn]
  have "mset (map snd (data s)) + ?A = (mset (map snd d') + mset vs) + ?A" by (simp only: m)
  also have "\<dots> = mset (map snd d') + (?A + mset vs)" by (simp only: ac_simps)
  also note IH
  finally show ?case .
qed

lemma do_split_mset:
  assumes "do_split it self gens = (Inr rs, self')" "distinct (map fst (data self))"
  shows "mset (map snd (data self))
     = mset (map snd (data self')) + (\<Sum>r\<leftarrow>rs. mset (map snd (data r)))"
proof -
  from assms(1) obtain s1 cd' where
    l: "do_split_loop it self gens [] = (Inr rs, s1)"
    and s': "self' = s1\<lparr>data := enumerate 0 (map snd (data s1)), class_data := cd'\<rparr>"
    by (auto simp: do_split_def Let_def split: sum.splits prod.splits)
  from do_split_loop_mset[OF l assms(2)] show ?thesis by (simp add: s')
qed

lemma make_splits_lengths: "map length (make_splits indices start ns) = map nat ns"
  by (induction indices start ns rule: make_splits.induct) auto

section \<open>Properties of split on a SiameseDirDataset\<close>

lemma do_split_loop_length:
  "do_split_loop it s gens acc = (Inr rs, s') \<Longrightarrow> length rs = length acc + length gens"
proof (induction it s gens acc rule: do_split_loop.induct)
  case (1 it s acc)
  then show ?case by simp
next
  case (2 it s g gens acc)
  from "2.prems" obtain keys idxs vs d' cd where
    k: "py_sorted (map fst (class_data s)) = Inr keys"
    and g: "gather it (class_data s) keys g = Inr idxs"
    and p: "pop_all idxs (data s) = (Inr vs, d')"
    and c: "data_to_class (enumerate 0 vs) (label_key s) = Inr cd"
    and rec: "do_split_loop it (s\<lparr>data := d'\<rparr>) gens
        (acc @ [skip_init (s\<lparr>data := d'\<rparr>) (enumerate 0 vs) cd]) = (Inr rs, s')"
    by (auto split: sum.splits prod.splits)
  from "2.IH"[OF k g p[symmetric] refl c rec] show ?case by simp
qed

lemma do_split_length:
  assumes "do_split it self gens = (Inr rs, self')"
  shows "length rs = length gens"
proof -
  from assms obtain s1 where "do_split_loop it self gens [] = (Inr rs, s1)"
    by (auto simp: do_split_def Let_def split: sum.splits prod.splits)
  from do_split_loop_length[OF this] show ?thesis by simp
qed

lemma split_plan_lengths:
  assumes "split_plan fl rng n fractions method = Inr gens"
  shows "\<exists>counts. map (resolved_count fl (int n)) fractions = map Inr counts
     \<and> map length gens = map nat counts \<and> sum_list counts < int n"
proof -
  from assms obtain frac_sum int_sum n_samples indices where
    rs: "resolve fl (int n) fractions (Finite 0) 0 [] = Inr (frac_sum, int_sum, n_samples)"
    and lt: "int_sum < int n"
    and g: "gens = make_splits indices 0 n_samples"
    by (auto simp: split_plan_def split: if_splits sum.splits)
  from resolve_Inr[OF rs] have
    ns: "map (resolved_count fl (int n)) fractions = map Inr n_samples"
    and isum: "int_sum = sum_list n_samples" by auto
  have "map length gens = map nat n_samples" unfolding g by (rule make_splits_lengths)
  with ns lt isum show ?thesis by blast
qed

text \<open>
  A successful \<open>split\<close> whose partition routine is \<open>_do_split\<close>, whatever length it
  resolves the descriptors against.
\<close>

lemma fe_split_do_split_results:
  assumes "fe_split len (do_split it) fl rng self fractions method = (Inr res, self')"
  shows "\<exists>gens. split_plan fl rng (len self) fractions method = Inr gens
     \<and> do_split it self gens = (Inr (ret_list res), self')"
proof -
  from fe_split_results[OF assms] obtain gens rs where
    pl: "split_plan fl rng (len self) fractions method = Inr gens"
    and ds: "do_split it self gens = (Inr rs, self')"
    and r: "if length fractions = 1 then rs \<noteq> [] \<and> res = Single (hd rs) else res = Many rs"
    by blast
  from split_plan_lengths[OF pl] obtain counts where
    c: "map (resolved_count fl (int (len self))) fractions = map Inr counts"
      "map length gens = map nat counts"
    by blast
  from c(1) have "length fractions = length counts" by (rule map_eq_imp_length_eq)
  moreover from c(2) have "length gens = length counts" by (rule map_eq_imp_length_eq)
  moreover have "length rs = length gens"
    using ds by (rule do_split_length)
  ultimately have len: "length rs = length fractions" by simp
  have "ret_list res = rs"
  proof (cases "length fractions = 1")
    case True
    with len r have "rs = [hd rs]" by (cases rs) auto
    with True r show ?thesis by simp
  next
    case False
    with r show ?thesis by simp
  qed
  with pl ds show ?thesis by blast
qed

lemma siamese_split_results:
  assumes "siamese_split it fl rng self fractions method = (Inr res, self')"
  shows "\<exists>gens. split_plan fl rng (split_length self) fractions method = Inr gens
     \<and> do_split it self gens = (Inr (ret_list res), self')"
proof -
  from assms have "fe_split split_length (do_split it) fl rng self fractions method = (Inr res, self')"
    by (simp add: siamese_split_def)
  then show ?thesis by (rule fe_split_do_split_results)
qed


text \<open>
  Claim C5. After every successful \<open>split\<close> of a \<open>SiameseDirDataset\<close> the keys of the
  source's \<open>data\<close> and of every produced dataset's \<open>data\<close> are exactly
  \<open>0, 1, \<dots>, len - 1\<close>.
\<close>

theorem split_rekeys_contiguously:
  assumes "siamese_split it fl rng self fractions method = (Inr res, self')"
  shows "keys_contiguous self' \<and> (\<forall>r\<in>set (ret_list res). keys_contiguous r)"
proof -
  from siamese_split_results[OF assms] obtain gens where
    "do_split it self gens = (Inr (ret_list res), self')" by blast
  from do_split_results[OF this] show ?thesis by simp
qed

theorem split_rekeys_contiguously_witness:
  "siamese_split sorted_list_of_set Finite (\<lambda>k. 0) (example_dataset [0, 0, 1, 1, 2])
       [PyInt 1, PyInt 1] ''random''
     = (Inr (Many [example_dataset [0, 0], example_dataset [1, 1]]), example_dataset [2])
   \<and> keys_contiguous (example_dataset [2])
   \<and> list_all keys_contiguous [example_dataset [0, 0], example_dataset [1, 1]]"
proof -
  have h: "siamese_split sorted_list_of_set Finite (\<lambda>k. 0) (example_dataset [0, 0, 1, 1, 2])
       [PyInt 1, PyInt 1] ''random''
     = (Inr (Many [example_dataset [0, 0], example_dataset [1, 1]]), example_dataset [2])"
    by code_simp
  from split_rekeys_contiguously[OF h] have
    "keys_contiguous (example_dataset [2])"
    "list_all keys_contiguous [example_dataset [0, 0], example_dataset [1, 1]]"
    by simp_all
  with h show ?thesis by (intro conjI)
qed

text \<open>
  Claim C6. After construction (from a scan whose keys are those of a dictionary) and
  after every successful \<open>split\<close>, in the source and in every produced dataset, the
  sets of \<open>class_data\<close> together are the set of keys of \<open>data\<close>, and no two of them
  share an index.
\<close>

theorem class_index_invariant:
  "(distinct (map fst scanned) \<and> siamese_init scanned kl kr lk p = Inr ds
      \<longrightarrow> class_index_inv ds)
   \<and> (siamese_split it fl rng self fractions method = (Inr res, self')
      \<longrightarrow> class_index_inv self' \<and> (\<forall>r\<in>set (ret_list res). class_index_inv r))"
proof (intro conjI impI)
  assume "distinct (map fst scanned) \<and> siamese_init scanned kl kr lk p = Inr ds"
  then have "well_formed ds"
    by (auto simp: siamese_init_def well_formed_def split: sum.splits)
  then show "class_index_inv ds" by (rule well_formed_class_index_inv)
next
  assume a: "siamese_split it fl rng self fractions method = (Inr res, self')"
  from siamese_split_results[OF a] obtain gens where
    "do_split it self gens = (Inr (ret_list res), self')" by blast
  from do_split_results[OF this] have
    w: "well_formed self'" "\<forall>r\<in>set (ret_list res). well_formed r" by simp_all
  from w(1) show "class_index_inv self'" by (rule well_formed_class_index_inv)
  from w(2) show "\<forall>r\<in>set (ret_list res). class_index_inv r"
    by (auto intro: well_formed_class_index_inv)
qed

theorem class_index_invariant_witness:
  "distinct (map fst (example_data [0, 1, 0, 1, 2]))
   \<and> siamese_init (example_data [0, 1, 0, 1, 2]) ''x_a'' ''x_b'' ''y'' (1 / 2)
       = Inr (example_dataset [0, 1, 0, 1, 2])
   \<and> class_index_inv (example_dataset [0, 1, 0, 1, 2])
   \<and> siamese_split sorted_list_of_set Finite (\<lambda>k. 0) (example_dataset [0, 1, 0, 1, 2])
       [PyInt 2] ''from_front''
     = (Inr (Single (example_dataset [0, 0, 1, 1])), example_dataset [2])
   \<and> class_index_inv (example_dataset [2])
   \<and> list_all class_index_inv [example_dataset [0, 0, 1, 1]]"
proof -
  have h1: "distinct (map fst (example_data [0, 1, 0, 1, 2]))" by code_simp
  have h2: "siamese_init (example_data [0, 1, 0, 1, 2]) ''x_a'' ''x_b'' ''y'' (1 / 2)
       = Inr (example_dataset [0, 1, 0, 1, 2])" by code_simp
  have h3: "siamese_split sorted_list_of_set Finite (\<lambda>k. 0) (example_dataset [0, 1, 0, 1, 2])
       [PyInt 2] ''from_front''
     = (Inr (Single (example_dataset [0, 0, 1, 1])), example_dataset [2])" by code_simp
  note t = class_index_invariant[of "example_data [0, 1, 0, 1, 2]" "''x_a''" "''x_b''" "''y''"
      "1 / 2" "example_dataset [0, 1, 0, 1, 2]" sorted_list_of_set Finite "\<lambda>k. 0"
      "example_dataset [0, 1, 0, 1, 2]" "[PyInt 2]" "''from_front''"
      "Single (example_dataset [0, 0, 1, 1])" "example_dataset [2]"]
  have c1: "class_index_inv (example_dataset [0, 1, 0, 1, 2])"
    by (rule mp[OF conjunct1[OF t] conjI[OF h1 h2]])
  note r = mp[OF conjunct2[OF t] h3]
  have c2: "class_index_inv (example_dataset [2])" by (rule conjunct1[OF r])
  have c3: "list_all class_index_inv [example_dataset [0, 0, 1, 1]]"
    using conjunct2[OF r] by simp
  from h1 h2 c1 h3 c2 c3 show ?thesis by (intro conjI)
qed

lemma length_all_labels: "length (all_labels rs) = sum_list (map split_length rs)"
  by (induction rs) (simp_all add: all_labels_def split_length_def)

lemma size_sum_list_mset:
  "size (\<Sum>r\<leftarrow>rs. mset (f r)) = (\<Sum>r\<leftarrow>rs. length (f r))"
  by (induction rs) simp_all

text \<open>
  What a successful \<open>split\<close> with \<open>_do_split\<close> as its partition routine does to a
  well-formed dataset, whatever length \<open>len\<close> it resolves the descriptors against: the
  resolved counts are numbers of classes.
\<close>

lemma fe_split_partitions:
  assumes wf: "well_formed self"
    and itok: "\<forall>s\<in>snd ` set (class_data self). lists_set it s"
    and run: "fe_split len (do_split it) fl rng self fractions method = (Inr res, self')"
  shows "\<exists>counts.
       map (resolved_count fl (int (len self))) fractions = map Inr counts
     \<and> sum_list counts < int (len self)
     \<and> map split_length (ret_list res) = map nat counts
     \<and> distinct (all_labels (self' # ret_list res))
     \<and> set (all_labels (self' # ret_list res)) = set (map fst (class_data self))
     \<and> split_length self' + sum_list (map nat counts) = split_length self
     \<and> mset (map snd (data self))
         = mset (map snd (data self')) + (\<Sum>r\<leftarrow>ret_list res. mset (map snd (data r)))
     \<and> length (data self') + (\<Sum>r\<leftarrow>ret_list res. length (data r)) = length (data self)"
proof -
  let ?rs = "ret_list res"
  from fe_split_do_split_results[OF run] obtain gens where
    pl: "split_plan fl rng (len self) fractions method = Inr gens"
    and ds: "do_split it self gens = (Inr ?rs, self')"
    by blast
  from split_plan_lengths[OF pl] obtain counts where
    c0: "map (resolved_count fl (int (len self))) fractions = map Inr counts"
    and gl: "map length gens = map nat counts"
    and lt: "sum_list counts < int (len self)"
    by blast
  note part = do_split_partition[OF wf itok ds]
  have sl: "split_length = (\<lambda>r. length (class_data r))"
    by (rule ext) (simp add: split_length_def)
  have c1: "map split_length ?rs = map nat counts"
    unfolding sl using part(1) gl by simp
  from wf have dd0: "distinct (map fst (data self))"
    and dtc0: "data_to_class (data self) (label_key self) = Inr (class_data self)"
    by (simp_all add: well_formed_def)
  have dk: "distinct (map fst (class_data self))" using dtc0 by (rule data_to_class_props(1))
  have "length (all_labels (self' # ?rs)) = card (set (all_labels (self' # ?rs)))"
    using part(2) by (simp only: distinct_card)
  also have "\<dots> = card (set (map fst (class_data self)))" by (simp only: part(3))
  also have "\<dots> = length (map fst (class_data self))" using dk by (rule distinct_card)
  finally have "split_length self' + sum_list (map split_length ?rs) = split_length self"
    by (simp add: length_all_labels split_length_def)
  then have c4: "split_length self' + sum_list (map nat counts) = split_length self"
    by (simp only: c1)
  have c5: "mset (map snd (data self))
         = mset (map snd (data self')) + (\<Sum>r\<leftarrow>?rs. mset (map snd (data r)))"
    using ds dd0 by (rule do_split_mset)
  have "size (mset (map snd (data self)))
      = size (mset (map snd (data self'))) + size (\<Sum>r\<leftarrow>?rs. mset (map snd (data r)))"
    by (subst c5) (simp only: size_union)
  moreover have "size (\<Sum>r\<leftarrow>?rs. mset (map snd (data r))) = (\<Sum>r\<leftarrow>?rs. length (map snd (data r)))"
    by (rule size_sum_list_mset)
  ultimately have "length (data self) = length (data self') + (\<Sum>r\<leftarrow>?rs. length (data r))"
    by (simp only: size_mset length_map)
  then have c6: "length (data self') + (\<Sum>r\<leftarrow>?rs. length (data r)) = length (data self)"
    by simp
  from c0 lt c1 part(2) part(3) c4 c5 c6 show ?thesis
    by (intro exI[of _ counts] conjI)
qed

text \<open>
  Claim C4, as amended. A \<open>SiameseDirDataset\<close> is split by whole classes, so the
  counts are counts of classes and not of records. After a successful \<open>split\<close> of a
  well-formed dataset every descriptor has resolved to a count (a float \<open>f\<close> to the
  ceiling of the product of \<open>f\<close> and the number of classes, an int to itself), the sum
  of the counts is below the number of classes, and there is one result per descriptor;
  the \<open>i\<close>-th result holds exactly as many classes as the \<open>i\<close>-th count says (none for
  a negative count); no label is in two of the datasets (results and remaining source),
  and together they hold the labels the source had, so the source loses exactly the
  total of the counts in classes; every record of the source is in exactly one of the
  datasets, so the number of records of the source decreases by exactly the number of
  records the results hold.
\<close>

theorem split_partitions_classes:
  assumes wf: "well_formed self"
    and itok: "\<forall>s\<in>snd ` set (class_data self). lists_set it s"
    and run: "siamese_split it fl rng self fractions method = (Inr res, self')"
  shows "\<exists>counts.
       map (resolved_count fl (int (split_length self))) fractions = map Inr counts
     \<and> sum_list counts < int (split_length self)
     \<and> map split_length (ret_list res) = map nat counts
     \<and> distinct (all_labels (self' # ret_list res))
     \<and> set (all_labels (self' # ret_list res)) = set (map fst (class_data self))
     \<and> split_length self' + sum_list (map nat counts) = split_length self
     \<and> mset (map snd (data self))
         = mset (map snd (data self')) + (\<Sum>r\<leftarrow>ret_list res. mset (map snd (data r)))
     \<and> length (data self') + (\<Sum>r\<leftarrow>ret_list res. length (data r)) = length (data self)"
proof -
  from run have "fe_split split_length (do_split it) fl rng self fractions method = (Inr res, self')"
    by (simp add: siamese_split_def)
  with wf itok show ?thesis by (rule fe_split_partitions)
qed

lemma lists_set_sorted: "finite S \<Longrightarrow> lists_set sorted_list_of_set S"
  by (simp add: lists_set_def)

theorem split_partitions_classes_witness:
  "well_formed (example_dataset [0, 0, 0, 1, 1, 2, 3, 3])
   \<and> list_all (\<lambda>ks. lists_set sorted_list_of_set (snd ks))
        (class_data (example_dataset [0, 0, 0, 1, 1, 2, 3, 3]))
   \<and> siamese_split sorted_list_of_set Finite (\<lambda>k. 0) (example_dataset [0, 0, 0, 1, 1, 2, 3, 3])
        [PyFloat (Finite (3 / 10)), PyInt 1] ''random''
      = (Inr (Many [example_dataset [0, 0, 0, 1, 1], example_dataset [2]]),
         example_dataset [3, 3])
   \<and> map (resolved_count Finite (int (split_length (example_dataset [0, 0, 0, 1, 1, 2, 3, 3]))))
        [PyFloat (Finite (3 / 10)), PyInt 1] = map Inr [2, 1]
   \<and> map split_length [example_dataset [0, 0, 0, 1, 1], example_dataset [2]] = map nat [2, 1]
   \<and> split_length (example_dataset [3, 3]) + sum_list (map nat [2, 1])
        = split_length (example_dataset [0, 0, 0, 1, 1, 2, 3, 3])
   \<and> length (data (example_dataset [3, 3]))
        + (length (data (example_dataset [0, 0, 0, 1, 1])) + length (data (example_dataset [2])))
        = length (data (example_dataset [0, 0, 0, 1, 1, 2, 3, 3]))"
proof -
  let ?ds = "example_dataset [0, 0, 0, 1, 1, 2, 3, 3]"
  let ?fr = "[PyFloat (Finite (3 / 10)), PyInt 1]"
  have h1: "well_formed ?ds" by code_simp
  have h2: "list_all (\<lambda>ks. lists_set sorted_list_of_set (snd ks)) (class_data ?ds)"
    by code_simp
  then have h2': "\<forall>s\<in>snd ` set (class_data ?ds). lists_set sorted_list_of_set s"
    by (simp only: list_all_iff) blast
  have h3: "siamese_split sorted_list_of_set Finite (\<lambda>k. 0) ?ds ?fr ''random''
      = (Inr (Many [example_dataset [0, 0, 0, 1, 1], example_dataset [2]]),
         example_dataset [3, 3])"
    by code_simp
  have rc: "map (resolved_count Finite (int (split_length ?ds))) ?fr = map Inr [2, 1]"
    by code_simp
  from split_partitions_classes[OF h1 h2' h3] obtain counts where
    c0: "map (resolved_count Finite (int (split_length ?ds))) ?fr = map Inr counts"
    and c1: "map split_length (ret_list (Many [example_dataset [0, 0, 0, 1, 1], example_dataset [2]]))
        = map nat counts"
    and c4: "split_length (example_dataset [3, 3]) + sum_list (map nat counts) = split_length ?ds"
    and c6: "length (data (example_dataset [3, 3]))
        + (\<Sum>r\<leftarrow>ret_list (Many [example_dataset [0, 0, 0, 1, 1], example_dataset [2]]).
             length (data r))
        = length (data ?ds)"
    by (elim exE conjE)
  from c0 rc have "map Inr counts = (map Inr [2, 1] :: (error + int) list)" by (rule trans[OF sym])
  then have cs: "counts = [2, 1]" by (auto simp: map_eq_Cons_conv)
  from c1 have r1: "map split_length [example_dataset [0, 0, 0, 1, 1], example_dataset [2]]
      = map nat [2, 1]"
    by (simp only: cs ret_list.simps)
  from c4 have r4: "split_length (example_dataset [3, 3]) + sum_list (map nat [2, 1])
      = split_length ?ds"
    by (simp only: cs)
  from c6 have r6: "length (data (example_dataset [3, 3]))
        + (length (data (example_dataset [0, 0, 0, 1, 1])) + length (data (example_dataset [2])))
        = length (data ?ds)"
    by (simp only: ret_list.simps list.map sum_list.Cons sum_list.Nil add_0_right)
  from h1 h2 h3 rc r1 r4 r6 show ?thesis by (intro conjI)
qed

text \<open>
  Claim C4 as stated fails: the counts are not counts of records. On ten records in
  five classes of two, \<open>split(0.3, 0.3)\<close> resolves each descriptor to two classes and
  gives results of 4 and 4 records and a source of 2, not of 3, 3 and 4. On ten classes
  (twelve records, two of the classes of two records), it resolves each descriptor to
  three classes and gives results of 4 and 3 records and a source of 5.
\<close>

theorem split_sizes_counterexample:
  "length (data (example_dataset [0, 0, 1, 1, 2, 2, 3, 3, 4, 4])) = 10
   \<and> siamese_split sorted_list_of_set Finite (\<lambda>k. 0) (example_dataset [0, 0, 1, 1, 2, 2, 3, 3, 4, 4])
        [PyFloat (Finite (3 / 10)), PyFloat (Finite (3 / 10))] ''random''
      = (Inr (Many [example_dataset [0, 0, 1, 1], example_dataset [2, 2, 3, 3]]),
         example_dataset [4, 4])
   \<and> length (data (example_dataset [0, 0, 1, 1])) = 4
   \<and> length (data (example_dataset [2, 2, 3, 3])) = 4
   \<and> length (data (example_dataset [4, 4])) = 2
   \<and> split_length (example_dataset [0, 0, 1, 2, 3, 4, 5, 6, 7, 8, 9, 9]) = 10
   \<and> siamese_split sorted_list_of_set Finite (\<lambda>k. 0)
        (example_dataset [0, 0, 1, 2, 3, 4, 5, 6, 7, 8, 9, 9])
        [PyFloat (Finite (3 / 10)), PyFloat (Finite (3 / 10))] ''random''
      = (Inr (Many [example_dataset [0, 0, 1, 2], example_dataset [3, 4, 5]]),
         example_dataset [6, 7, 8, 9, 9])
   \<and> length (data (example_dataset [0, 0, 1, 2])) = 4
   \<and> length (data (example_dataset [3, 4, 5])) = 3
   \<and> length (data (example_dataset [6, 7, 8, 9, 9])) = 5"
  by code_simp

text \<open>
  Claim C1. \<open>split\<close> on a \<open>SiameseDirDataset\<close> resolves its descriptors against
  the number of classes. When the call succeeds, every descriptor has resolved to a
  count against the number of classes, the sum of the counts is below the number of
  classes, and one dataset is returned per descriptor. When the descriptors resolve to
  counts whose sum is not below the number of classes, the call raises
  \<open>AssertionError\<close> and leaves the dataset as it was. A float \<open>f\<close> resolves to the
  ceiling of the float product of the number of classes and \<open>f\<close>.
\<close>

theorem split_resolves_against_class_count:
  "(siamese_split it fl rng self fractions method = (Inr res, self') \<longrightarrow>
      (\<exists>counts.
          map (resolved_count fl (int (length (class_data self)))) fractions = map Inr counts
        \<and> sum_list counts < int (length (class_data self))
        \<and> length (ret_list res) = length fractions))
   \<and> (map (resolved_count fl (int (length (class_data self)))) fractions = map Inr counts
        \<and> int (length (class_data self)) \<le> sum_list counts \<longrightarrow>
      siamese_split it fl rng self fractions method = (Inl AssertionError, self))
   \<and> (fl (of_int (int (length (class_data self)))) = Finite n \<and> fl (n * f) = Finite p \<longrightarrow>
      resolved_count fl (int (length (class_data self))) (PyFloat (Finite f)) = Inr \<lceil>p\<rceil>)"
proof (intro conjI impI)
  assume run: "siamese_split it fl rng self fractions method = (Inr res, self')"
  from siamese_split_results[OF run] obtain gens where
    pl: "split_plan fl rng (split_length self) fractions method = Inr gens"
    and ds: "do_split it self gens = (Inr (ret_list res), self')"
    by blast
  from split_plan_lengths[OF pl] obtain counts where
    c: "map (resolved_count fl (int (split_length self))) fractions = map Inr counts"
      "map length gens = map nat counts" "sum_list counts < int (split_length self)"
    by blast
  from c(1) have "length fractions = length counts" by (rule map_eq_imp_length_eq)
  moreover from c(2) have "length gens = length counts" by (rule map_eq_imp_length_eq)
  moreover have "length (ret_list res) = length gens" using ds by (rule do_split_length)
  ultimately have "length (ret_list res) = length fractions" by simp
  with c(1,3) show "\<exists>counts.
          map (resolved_count fl (int (length (class_data self)))) fractions = map Inr counts
        \<and> sum_list counts < int (length (class_data self))
        \<and> length (ret_list res) = length fractions"
    unfolding split_length_def by (intro exI[of _ counts] conjI)
next
  assume a: "map (resolved_count fl (int (length (class_data self)))) fractions = map Inr counts
        \<and> int (length (class_data self)) \<le> sum_list counts"
  then have r: "resolve fl (int (length (class_data self))) fractions (Finite 0) 0 []
      = Inr (frac_total fl fractions (Finite 0), sum_list counts, counts)"
    using resolve_total[of fl "int (length (class_data self))" fractions counts "Finite 0" 0 "[]"]
    by simp
  from a have "\<not> sum_list counts < int (length (class_data self))" by simp
  with r have "split_plan fl rng (length (class_data self)) fractions method = Inl AssertionError"
    by (simp add: split_plan_def)
  then show "siamese_split it fl rng self fractions method = (Inl AssertionError, self)"
    by (simp add: siamese_split_def fe_split_def split_length_def)
next
  assume "fl (of_int (int (length (class_data self)))) = Finite n \<and> fl (n * f) = Finite p"
  then show "resolved_count fl (int (length (class_data self))) (PyFloat (Finite f)) = Inr \<lceil>p\<rceil>"
    by (simp add: resolved_count_def int_to_float_def py_ceil_def)
qed

theorem split_resolves_against_class_count_witness:
  "length (data (example_dataset [0, 0, 0, 0, 0, 1, 1, 1, 1, 1])) = 10
   \<and> length (class_data (example_dataset [0, 0, 0, 0, 0, 1, 1, 1, 1, 1])) = 2
   \<and> siamese_split sorted_list_of_set Finite (\<lambda>k. 0) (example_dataset [0, 0, 0, 0, 0, 1, 1, 1, 1, 1])
        [PyFloat (Finite (1 / 2))] ''from_front''
      = (Inr (Single (example_dataset [0, 0, 0, 0, 0])), example_dataset [1, 1, 1, 1, 1])
   \<and> (\<exists>counts.
          map (resolved_count Finite
                 (int (length (class_data (example_dataset [0, 0, 0, 0, 0, 1, 1, 1, 1, 1])))))
            [PyFloat (Finite (1 / 2))] = map Inr counts
        \<and> sum_list counts < int (length (class_data (example_dataset [0, 0, 0, 0, 0, 1, 1, 1, 1, 1])))
        \<and> length (ret_list (Single (example_dataset [0, 0, 0, 0, 0]))) = length [PyFloat (Finite (1 / 2))])
   \<and> resolved_count Finite (int (length (class_data (example_dataset [0, 0, 0, 0, 0, 1, 1, 1, 1, 1]))))
        (PyFloat (Finite (1 / 2))) = Inr \<lceil>1 :: real\<rceil>
   \<and> map (resolved_count Finite
             (int (length (class_data (example_dataset [0, 0, 0, 0, 0, 1, 1, 1, 1, 1])))))
        [PyInt 2] = map Inr [2]
   \<and> int (length (class_data (example_dataset [0, 0, 0, 0, 0, 1, 1, 1, 1, 1]))) \<le> sum_list [2]
   \<and> siamese_split sorted_list_of_set Finite (\<lambda>k. 0) (example_dataset [0, 0, 0, 0, 0, 1, 1, 1, 1, 1])
        [PyInt 2] ''from_front''
      = (Inl AssertionError, example_dataset [0, 0, 0, 0, 0, 1, 1, 1, 1, 1])"
proof -
  let ?ds = "example_dataset [0, 0, 0, 0, 0, 1, 1, 1, 1, 1]"
  have l1: "length (data ?ds) = 10" by code_simp
  have l2: "length (class_data ?ds) = 2" by code_simp
  have h: "siamese_split sorted_list_of_set Finite (\<lambda>k. 0) ?ds [PyFloat (Finite (1 / 2))] ''from_front''
      = (Inr (Single (example_dataset [0, 0, 0, 0, 0])), example_dataset [1, 1, 1, 1, 1])"
    by code_simp
  note t1 = split_resolves_against_class_count[of sorted_list_of_set Finite "\<lambda>k. 0" ?ds
      "[PyFloat (Finite (1 / 2))]" "''from_front''" "Single (example_dataset [0, 0, 0, 0, 0])"
      "example_dataset [1, 1, 1, 1, 1]" "[]" 2 "1 / 2" 1]
  note c1 = mp[OF conjunct1[OF t1] h]
  have f1: "Finite (of_int (int (length (class_data ?ds)))) = Finite 2 \<and> Finite (2 * (1 / 2)) = Finite (1 :: real)"
    by (simp add: l2)
  note c3 = mp[OF conjunct2[OF conjunct2[OF t1]] f1]
  note t2 = split_resolves_against_class_count[of sorted_list_of_set Finite "\<lambda>k. 0" ?ds
      "[PyInt 2]" "''from_front''" "Single (example_dataset [0, 0, 0, 0, 0])"
      "example_dataset [1, 1, 1, 1, 1]" "[2]" 2 "1 / 2" 1]
  have m: "map (resolved_count Finite (int (length (class_data ?ds)))) [PyInt 2] = map Inr [2]"
    by (simp add: resolved_count_def)
  have s: "int (length (class_data ?ds)) \<le> sum_list [2]" by (simp add: l2)
  note c2 = mp[OF conjunct1[OF conjunct2[OF t2]] conjI[OF m s]]
  from l1 l2 h c1 c3 m s c2 show ?thesis by (intro conjI)
qed

section \<open>Properties of item access\<close>

lemma wf_class_lookup:
  assumes "well_formed self" "l \<in> set (map fst (class_data self))"
  shows "py_getitem (class_data self) l = Inr (class_of (class_data self) l)"
proof -
  from assms(2) obtain s where "map_of (class_data self) l = Some s"
    by (metis domD dom_map_of_conv_image_fst set_map)
  then show ?thesis by (simp add: py_getitem_def class_of_def)
qed

lemma wf_member_record:
  assumes "well_formed self" "i \<in> class_of (class_data self) l"
  shows "\<exists>r. map_of (data self) i = Some r \<and> map_of r (label_key self) = Some l"
proof -
  from assms(1) have dd: "distinct (map fst (data self))"
    and dtc: "data_to_class (data self) (label_key self) = Inr (class_data self)"
    by (simp_all add: well_formed_def)
  from assms(2) have "i \<in> members (data self) (label_key self) l"
    by (simp only: data_to_class_props(2)[OF dtc])
  then obtain r where r: "(i, r) \<in> set (data self)" "map_of r (label_key self) = Some l"
    by (auto simp: members_def)
  from dd r(1) have "map_of (data self) i = Some r" by simp
  with r(2) show ?thesis by blast
qed

lemma wf_record_member:
  assumes "well_formed self" "map_of (data self) i = Some r" "map_of r (label_key self) = Some l"
  shows "i \<in> class_of (class_data self) l" and "l \<in> set (map fst (class_data self))"
proof -
  from assms(1) have
    dtc: "data_to_class (data self) (label_key self) = Inr (class_data self)"
    by (simp add: well_formed_def)
  from assms(2) have in_d: "(i, r) \<in> set (data self)" by (rule map_of_SomeD)
  with assms(3) have m: "i \<in> members (data self) (label_key self) l"
    by (auto simp: members_def)
  then show "i \<in> class_of (class_data self) l"
    by (simp only: data_to_class_props(2)[OF dtc])
  from in_d assms(3) have "l \<in> rec_labels (label_key self) (snd ` set (data self))"
    by (force simp: rec_labels_def)
  then show "l \<in> set (map fst (class_data self))"
    by (simp only: data_to_class_props(3)[OF dtc])
qed

lemma wf_class_nonempty:
  assumes "well_formed self" "l \<in> set (map fst (class_data self))"
  shows "class_of (class_data self) l \<noteq> {}"
proof -
  from assms(1) have dtc: "data_to_class (data self) (label_key self) = Inr (class_data self)"
    by (simp add: well_formed_def)
  from assms(2) have "l \<in> rec_labels (label_key self) (snd ` set (data self))"
    by (simp only: data_to_class_props(3)[OF dtc])
  then show ?thesis by (simp only: data_to_class_props(2)[OF dtc] members_nonempty_iff)
qed

lemma wf_it_class:
  assumes "well_formed self" "\<forall>s\<in>snd ` set (class_data self). lists_set it s"
    "l \<in> set (map fst (class_data self))"
  shows "set (it (class_of (class_data self) l)) = class_of (class_data self) l"
    and "distinct (it (class_of (class_data self) l))"
proof -
  from assms(1) have dtc: "data_to_class (data self) (label_key self) = Inr (class_data self)"
    by (simp add: well_formed_def)
  from assms(3) obtain s where s: "(l, s) \<in> set (class_data self)" by auto
  then have cs: "class_of (class_data self) l = s"
    by (rule class_of_member[OF data_to_class_props(1)[OF dtc]])
  from s assms(2) have "lists_set it s" by force
  then show "set (it (class_of (class_data self) l)) = class_of (class_data self) l"
    and "distinct (it (class_of (class_data self) l))"
    unfolding cs lists_set_def by simp_all
qed

lemma np_choice_nth:
  assumes "xs \<noteq> []"
  shows "np_choice xs r = Inr (xs ! (r mod length xs))" and "xs ! (r mod length xs) \<in> set xs"
proof -
  from assms show "np_choice xs r = Inr (xs ! (r mod length xs))" by (simp add: np_choice_def)
  from assms have "r mod length xs < length xs" by simp
  then show "xs ! (r mod length xs) \<in> set xs" by (rule nth_mem)
qed

lemma np_array_keeps: "np_keeps a \<Longrightarrow> np_array coerce a = a"
  by (simp add: np_keeps_def np_array_def)

lemma np_keeps_subset: "np_keeps a \<Longrightarrow> set b \<subseteq> set a \<Longrightarrow> np_keeps b"
  unfolding np_keeps_def list_all_iff by blast

lemma py_getitem_Inr: "py_getitem d k = Inr v \<longleftrightarrow> map_of d k = Some v"
  by (simp add: py_getitem_def split: option.splits)

text \<open>
  Claim C3. In a well-formed dataset, item access at an index whose class has exactly
  one member fails when the same-class branch is taken: the candidates are the class
  without the index, there are none, and \<open>np.random.choice\<close> raises \<open>ValueError\<close> on
  the empty list. The dataset is unchanged.
\<close>

theorem getitem_singleton_class_fails:
  assumes wf: "well_formed self"
    and idx: "py_getitem (data self) index = Inr base_item"
    and lbl: "py_getitem base_item (label_key self) = Inr lbl"
    and single: "card (class_of (class_data self) lbl) = 1"
    and match: "u < percent_matching_data self"
    and it0: "lists_set it {}"
  shows "getitem it itl coerce u r1 r2 self index = (Inl ValueError, self)"
proof -
  from idx lbl have m: "map_of (data self) index = Some base_item"
    "map_of base_item (label_key self) = Some lbl"
    by (simp_all add: py_getitem_Inr)
  note mem = wf_record_member[OF wf m]
  from single obtain x where x: "class_of (class_data self) lbl = {x}"
    by (auto simp: card_1_singleton_iff)
  with mem(1) have cls: "class_of (class_data self) lbl = {index}" by simp
  have lk: "py_getitem (class_data self) lbl = Inr {index}"
    using wf_class_lookup[OF wf mem(2)] cls by simp
  from it0 have e: "it {} = []" by (simp add: lists_set_def)
  show ?thesis
    by (simp add: getitem_def idx lbl match lk e np_choice_def)
qed


theorem getitem_singleton_class_fails_witness:
  "well_formed (example_dataset [0, 0, 1])
   \<and> py_getitem (data (example_dataset [0, 0, 1])) 2 = Inr [(''x_a'', StrV ''file''), (''y'', IntV 1)]
   \<and> py_getitem [(''x_a'', StrV ''file''), (''y'', IntV 1)] (label_key (example_dataset [0, 0, 1]))
        = Inr (IntV 1)
   \<and> card (class_of (class_data (example_dataset [0, 0, 1])) (IntV 1)) = 1
   \<and> 1 / 4 < percent_matching_data (example_dataset [0, 0, 1])
   \<and> lists_set sorted_list_of_set ({} :: nat set)
   \<and> getitem sorted_list_of_set int_labels_sorted id (1 / 4) 0 0 (example_dataset [0, 0, 1]) 2
        = (Inl ValueError, example_dataset [0, 0, 1])"
proof -
  let ?ds = "example_dataset [0, 0, 1]"
  have h1: "well_formed ?ds" by code_simp
  have h2: "py_getitem (data ?ds) 2 = Inr [(''x_a'', StrV ''file''), (''y'', IntV 1)]"
    by code_simp
  have h3: "py_getitem [(''x_a'', StrV ''file''), (''y'', IntV 1)] (label_key ?ds) = Inr (IntV 1)"
    by code_simp
  have h4: "card (class_of (class_data ?ds) (IntV 1)) = 1" by code_simp
  have h5: "1 / 4 < percent_matching_data ?ds" by (simp add: example_dataset_def)
  have h6: "lists_set sorted_list_of_set ({} :: nat set)" by (simp add: lists_set_def)
  note t = getitem_singleton_class_fails[OF h1 h2 h3 h4 h5 h6, of int_labels_sorted id 0 0]
  from h1 h2 h3 h4 h5 h6 t show ?thesis by (intro conjI)
qed

lemma getitem_match:
  assumes "py_getitem (data self) index = Inr base_item"
    and "u < percent_matching_data self"
    and "py_getitem base_item (label_key self) = Inr lbl"
    and "py_getitem (class_data self) lbl = Inr items"
    and "np_choice (it (items - {index})) r1 = Inr other"
    and "py_getitem (data self) other = Inr other_item"
    and "py_getitem other_item (data_key_left self) = Inr v"
  shows "getitem it itl coerce u r1 r2 self index
    = (Inr (AList.update (label_key self) (IntV 1)
              (AList.update (data_key_right self) v base_item)), self)"
  unfolding getitem_def by (simp only: assms sum.case if_True)

lemma getitem_match_empty:
  assumes "py_getitem (data self) index = Inr base_item"
    and "u < percent_matching_data self"
    and "py_getitem base_item (label_key self) = Inr lbl"
    and "py_getitem (class_data self) lbl = Inr items"
    and "np_choice (it (items - {index})) r1 = Inl e"
  shows "getitem it itl coerce u r1 r2 self index = (Inl e, self)"
  unfolding getitem_def by (simp only: assms sum.case if_True)

lemma getitem_nonmatch:
  assumes "py_getitem (data self) index = Inr base_item"
    and "\<not> u < percent_matching_data self"
    and "py_getitem base_item (label_key self) = Inr lbl"
    and "np_choice (np_array coerce (itl (set (map fst (class_data self)) - {lbl}))) r1
          = Inr other_class"
    and "py_getitem (class_data self) other_class = Inr other_items"
    and "np_choice (it other_items) r2 = Inr other"
    and "py_getitem (data self) other = Inr other_item"
    and "py_getitem other_item (data_key_left self) = Inr v"
  shows "getitem it itl coerce u r1 r2 self index
    = (Inr (AList.update (label_key self) (IntV 0)
              (AList.update (data_key_right self) v base_item)), self)"
  unfolding getitem_def by (simp only: assms sum.case if_False)

lemma getitem_nonmatch_empty:
  assumes "py_getitem (data self) index = Inr base_item"
    and "\<not> u < percent_matching_data self"
    and "py_getitem base_item (label_key self) = Inr lbl"
    and "np_choice (np_array coerce (itl (set (map fst (class_data self)) - {lbl}))) r1 = Inl e"
  shows "getitem it itl coerce u r1 r2 self index = (Inl e, self)"
  unfolding getitem_def by (simp only: assms sum.case if_False)

lemma getitem_snd: "snd (getitem it itl coerce u r1 r2 self index) = self"
  unfolding getitem_def by (simp split: sum.split)

lemma getitem_pair_match:
  assumes wf: "well_formed self"
    and idx: "py_getitem (data self) index = Inr base_item"
    and lbl: "py_getitem base_item (label_key self) = Inr lbl"
    and left: "\<forall>r\<in>snd ` set (data self). map_of r (data_key_left self) \<noteq> None"
    and keys: "data_key_left self \<noteq> data_key_right self"
      "data_key_left self \<noteq> label_key self" "data_key_right self \<noteq> label_key self"
    and it1: "lists_set it (class_of (class_data self) lbl - {index})"
    and a: "u < percent_matching_data self \<and> class_of (class_data self) lbl - {index} \<noteq> {}"
  shows "\<exists>other other_item v item.
            other = it (class_of (class_data self) lbl - {index})
                      ! (r1 mod length (it (class_of (class_data self) lbl - {index})))
            \<and> distinct (it (class_of (class_data self) lbl - {index}))
            \<and> set (it (class_of (class_data self) lbl - {index}))
                = class_of (class_data self) lbl - {index}
            \<and> other \<in> class_of (class_data self) lbl \<and> other \<noteq> index
            \<and> map_of (data self) other = Some other_item
            \<and> map_of other_item (label_key self) = Some lbl
            \<and> map_of other_item (data_key_left self) = Some v
            \<and> getitem it itl coerce u r1 r2 self index = (Inr item, self)
            \<and> item = AList.update (label_key self) (IntV 1)
                        (AList.update (data_key_right self) v base_item)
            \<and> map_of item (label_key self) = Some (IntV 1)
            \<and> map_of item (data_key_right self) = Some v
            \<and> map_of item (data_key_left self) = map_of base_item (data_key_left self)"
proof -
  let ?cands = "it (class_of (class_data self) lbl - {index})"
  let ?other = "?cands ! (r1 mod length ?cands)"
  from idx lbl have m: "map_of (data self) index = Some base_item"
    "map_of base_item (label_key self) = Some lbl"
    by (simp_all add: py_getitem_Inr)
  note mem = wf_record_member[OF wf m]
  have lk: "py_getitem (class_data self) lbl = Inr (class_of (class_data self) lbl)"
    by (rule wf_class_lookup[OF wf mem(2)])
  from it1 have sc: "set ?cands = class_of (class_data self) lbl - {index}"
    unfolding lists_set_def by (rule conjunct1)
  from it1 have dc: "distinct ?cands"
    unfolding lists_set_def by (rule conjunct2)
  have ne: "?cands \<noteq> []"
  proof
    assume "?cands = []"
    then have "set ?cands = {}" by (simp only: set_empty)
    with sc a show False by simp
  qed
  note o = np_choice_nth[OF ne, of r1]
  from o(2) sc have oc: "?other \<in> class_of (class_data self) lbl" "?other \<noteq> index" by auto
  from wf_member_record[OF wf oc(1)] obtain other_item where
    oi: "map_of (data self) ?other = Some other_item" "map_of other_item (label_key self) = Some lbl"
    by blast
  from oi(1) have "other_item \<in> snd ` set (data self)" by (force dest: map_of_SomeD)
  with left obtain v where v: "map_of other_item (data_key_left self) = Some v" by blast
  let ?item = "AList.update (label_key self) (IntV 1) (AList.update (data_key_right self) v base_item)"
  have g: "getitem it itl coerce u r1 r2 self index = (Inr ?item, self)"
  proof (rule getitem_match[where it = it and items = "class_of (class_data self) lbl",
      OF idx conjunct1[OF a] lbl lk o(1)])
    show "py_getitem (data self) ?other = Inr other_item" using oi(1) by (simp add: py_getitem_Inr)
    show "py_getitem other_item (data_key_left self) = Inr v" using v by (simp add: py_getitem_Inr)
  qed
  have l1: "map_of ?item (label_key self) = Some (IntV 1)" by (simp add: update_conv')
  have l2: "map_of ?item (data_key_right self) = Some v" using keys(3) by (simp add: update_conv')
  have l3: "map_of ?item (data_key_left self) = map_of base_item (data_key_left self)"
    using keys(1,2) by (simp add: update_conv')
  from dc sc oc oi v g l1 l2 l3 show ?thesis
    by (intro exI[of _ ?other] exI[of _ other_item] exI[of _ v] exI[of _ ?item] conjI refl)
qed

lemma getitem_pair_nonmatch:
  assumes wf: "well_formed self"
    and idx: "py_getitem (data self) index = Inr base_item"
    and lbl: "py_getitem base_item (label_key self) = Inr lbl"
    and left: "\<forall>r\<in>snd ` set (data self). map_of r (data_key_left self) \<noteq> None"
    and keys: "data_key_left self \<noteq> data_key_right self"
      "data_key_left self \<noteq> label_key self" "data_key_right self \<noteq> label_key self"
    and it2: "\<forall>s\<in>snd ` set (class_data self). lists_set it s"
    and itl: "lists_set itl (set (map fst (class_data self)) - {lbl})"
    and np: "np_keeps (map fst (class_data self))"
    and a: "\<not> u < percent_matching_data self \<and> set (map fst (class_data self)) - {lbl} \<noteq> {}"
  shows "\<exists>other_class other other_item v item.
            other_class = itl (set (map fst (class_data self)) - {lbl})
                            ! (r1 mod length (itl (set (map fst (class_data self)) - {lbl})))
            \<and> distinct (itl (set (map fst (class_data self)) - {lbl}))
            \<and> set (itl (set (map fst (class_data self)) - {lbl}))
                = set (map fst (class_data self)) - {lbl}
            \<and> other = it (class_of (class_data self) other_class)
                        ! (r2 mod length (it (class_of (class_data self) other_class)))
            \<and> distinct (it (class_of (class_data self) other_class))
            \<and> set (it (class_of (class_data self) other_class))
                = class_of (class_data self) other_class
            \<and> other_class \<in> set (map fst (class_data self)) \<and> other_class \<noteq> lbl
            \<and> other \<in> class_of (class_data self) other_class
            \<and> map_of (data self) other = Some other_item
            \<and> map_of other_item (label_key self) = Some other_class
            \<and> map_of other_item (data_key_left self) = Some v
            \<and> getitem it itl coerce u r1 r2 self index = (Inr item, self)
            \<and> item = AList.update (label_key self) (IntV 0)
                        (AList.update (data_key_right self) v base_item)
            \<and> map_of item (label_key self) = Some (IntV 0)
            \<and> map_of item (data_key_right self) = Some v
            \<and> map_of item (data_key_left self) = map_of base_item (data_key_left self)"
proof -
  let ?cands = "itl (set (map fst (class_data self)) - {lbl})"
  let ?oc = "?cands ! (r1 mod length ?cands)"
  from itl have sc: "set ?cands = set (map fst (class_data self)) - {lbl}"
    unfolding lists_set_def by (rule conjunct1)
  from itl have dc: "distinct ?cands"
    unfolding lists_set_def by (rule conjunct2)
  have ne: "?cands \<noteq> []"
  proof
    assume "?cands = []"
    then have "set ?cands = {}" by (simp only: set_empty)
    with sc a show False by simp
  qed
  from sc have "set ?cands \<subseteq> set (map fst (class_data self))" by blast
  with np have "np_keeps ?cands" by (rule np_keeps_subset)
  then have arr: "np_array coerce ?cands = ?cands" by (rule np_array_keeps)
  note c = np_choice_nth[OF ne, of r1]
  from c(1) have c1: "np_choice (np_array coerce ?cands) r1 = Inr ?oc" by (simp only: arr)
  from c(2) sc have cc: "?oc \<in> set (map fst (class_data self))" "?oc \<noteq> lbl"
    by auto
  let ?items = "class_of (class_data self) ?oc"
  let ?o = "it ?items ! (r2 mod length (it ?items))"
  have lk: "py_getitem (class_data self) ?oc = Inr ?items"
    by (rule wf_class_lookup[OF wf cc(1)])
  note ic = wf_it_class[OF wf it2 cc(1)]
  have ne2: "it ?items \<noteq> []"
  proof
    assume "it ?items = []"
    then have "set (it ?items) = {}" by (simp only: set_empty)
    with ic(1) wf_class_nonempty[OF wf cc(1)] show False by simp
  qed
  note o = np_choice_nth[OF ne2, of r2]
  from o(2) ic(1) have oc: "?o \<in> ?items" by simp
  from wf_member_record[OF wf oc] obtain other_item where
    oi: "map_of (data self) ?o = Some other_item"
        "map_of other_item (label_key self) = Some ?oc"
    by blast
  from oi(1) have "other_item \<in> snd ` set (data self)" by (force dest: map_of_SomeD)
  with left obtain v where v: "map_of other_item (data_key_left self) = Some v" by blast
  let ?item = "AList.update (label_key self) (IntV 0) (AList.update (data_key_right self) v base_item)"
  have g: "getitem it itl coerce u r1 r2 self index = (Inr ?item, self)"
  proof (rule getitem_nonmatch[where it = it and itl = itl and coerce = coerce
      and other_items = "?items", OF idx conjunct1[OF a] lbl c1 lk o(1)])
    show "py_getitem (data self) ?o = Inr other_item" using oi(1) by (simp add: py_getitem_Inr)
    show "py_getitem other_item (data_key_left self) = Inr v" using v by (simp add: py_getitem_Inr)
  qed
  have l1: "map_of ?item (label_key self) = Some (IntV 0)" by (simp add: update_conv')
  have l2: "map_of ?item (data_key_right self) = Some v" using keys(3) by (simp add: update_conv')
  have l3: "map_of ?item (data_key_left self) = map_of base_item (data_key_left self)"
    using keys(1,2) by (simp add: update_conv')
  from dc sc ic(2) ic(1) cc oc oi v g l1 l2 l3 show ?thesis
    by (intro exI[of _ ?oc] exI[of _ ?o] exI[of _ other_item] exI[of _ v]
          exI[of _ ?item] conjI refl)
qed

lemma getitem_no_partner:
  assumes wf: "well_formed self"
    and idx: "py_getitem (data self) index = Inr base_item"
    and lbl: "py_getitem base_item (label_key self) = Inr lbl"
    and it1: "lists_set it (class_of (class_data self) lbl - {index})"
    and a: "u < percent_matching_data self \<and> class_of (class_data self) lbl - {index} = {}"
  shows "getitem it itl coerce u r1 r2 self index = (Inl ValueError, self)"
proof -
  let ?cands = "it (class_of (class_data self) lbl - {index})"
  from idx lbl have m: "map_of (data self) index = Some base_item"
    "map_of base_item (label_key self) = Some lbl"
    by (simp_all add: py_getitem_Inr)
  note mem = wf_record_member[OF wf m]
  have lk: "py_getitem (class_data self) lbl = Inr (class_of (class_data self) lbl)"
    by (rule wf_class_lookup[OF wf mem(2)])
  from it1 have "set ?cands = class_of (class_data self) lbl - {index}"
    unfolding lists_set_def by (rule conjunct1)
  with a have "set ?cands = {}" by simp
  then have "?cands = []" by (simp only: set_empty)
  then have "np_choice ?cands r1 = Inl ValueError" by (simp add: np_choice_def)
  then show ?thesis
    by (rule getitem_match_empty[where it = it and items = "class_of (class_data self) lbl",
        OF idx conjunct1[OF a] lbl lk])
qed

lemma getitem_no_other_class:
  assumes idx: "py_getitem (data self) index = Inr base_item"
    and lbl: "py_getitem base_item (label_key self) = Inr lbl"
    and itl: "lists_set itl (set (map fst (class_data self)) - {lbl})"
    and a: "\<not> u < percent_matching_data self \<and> set (map fst (class_data self)) - {lbl} = {}"
  shows "getitem it itl coerce u r1 r2 self index = (Inl ValueError, self)"
proof -
  let ?cands = "itl (set (map fst (class_data self)) - {lbl})"
  from itl have "set ?cands = set (map fst (class_data self)) - {lbl}"
    unfolding lists_set_def by (rule conjunct1)
  with a have "set ?cands = {}" by simp
  then have e: "?cands = []" by (simp only: set_empty)
  have "np_choice (np_array coerce []) r1 = Inl ValueError"
    by (simp add: np_array_def np_choice_def)
  then have "np_choice (np_array coerce ?cands) r1 = Inl ValueError"
    by (simp only: e)
  then show ?thesis
    by (rule getitem_nonmatch_empty[OF idx conjunct1[OF a] lbl])
qed

text \<open>
  Claim C7, as amended. Item access at a valid index of a well-formed dataset whose
  three keys are different, whose records all have a left value and whose labels are
  labels that \<open>np.random.choice\<close> hands back as they are, leaves the dataset as it was
  (the record is deep-copied). When the draw \<open>u\<close> is below \<open>percent_matching_data\<close> and
  the class of the index has another member, it returns the record with two keys
  assigned: the right value is the left value of the member that the draw \<open>r1\<close> picks
  by its position in the list of the members of the class other than the index, a list
  in which each of them occurs once, and the label is 1. When \<open>u\<close> is not below
  \<open>percent_matching_data\<close> and there is another class, \<open>r1\<close> picks a class by its
  position in the list of the classes other than the record's, \<open>r2\<close> picks a member by
  its position in the list of the members of that class, each list holding each of its
  candidates once, the right value is the left value of that member, and the label is 0.
  The left value is the stored record's in both cases. When there is no candidate, no
  other member of the class in the first case and no other class in the second, item
  access raises \<open>ValueError\<close>.
\<close>

theorem getitem_pair:
  assumes wf: "well_formed self"
    and idx: "py_getitem (data self) index = Inr base_item"
    and lbl: "py_getitem base_item (label_key self) = Inr lbl"
    and left: "\<forall>r\<in>snd ` set (data self). map_of r (data_key_left self) \<noteq> None"
    and keys: "data_key_left self \<noteq> data_key_right self"
      "data_key_left self \<noteq> label_key self" "data_key_right self \<noteq> label_key self"
    and it1: "lists_set it (class_of (class_data self) lbl - {index})"
    and it2: "\<forall>s\<in>snd ` set (class_data self). lists_set it s"
    and itl: "lists_set itl (set (map fst (class_data self)) - {lbl})"
    and np: "np_keeps (map fst (class_data self))"
  shows "snd (getitem it itl coerce u r1 r2 self index) = self
    \<and> (u < percent_matching_data self \<and> class_of (class_data self) lbl - {index} \<noteq> {} \<longrightarrow>
         (\<exists>other other_item v item.
            other = it (class_of (class_data self) lbl - {index})
                      ! (r1 mod length (it (class_of (class_data self) lbl - {index})))
            \<and> distinct (it (class_of (class_data self) lbl - {index}))
            \<and> set (it (class_of (class_data self) lbl - {index}))
                = class_of (class_data self) lbl - {index}
            \<and> other \<in> class_of (class_data self) lbl \<and> other \<noteq> index
            \<and> map_of (data self) other = Some other_item
            \<and> map_of other_item (label_key self) = Some lbl
            \<and> map_of other_item (data_key_left self) = Some v
            \<and> getitem it itl coerce u r1 r2 self index = (Inr item, self)
            \<and> item = AList.update (label_key self) (IntV 1)
                        (AList.update (data_key_right self) v base_item)
            \<and> map_of item (label_key self) = Some (IntV 1)
            \<and> map_of item (data_key_right self) = Some v
            \<and> map_of item (data_key_left self) = map_of base_item (data_key_left self)))
    \<and> (\<not> u < percent_matching_data self \<and> set (map fst (class_data self)) - {lbl} \<noteq> {} \<longrightarrow>
         (\<exists>other_class other other_item v item.
            other_class = itl (set (map fst (class_data self)) - {lbl})
                            ! (r1 mod length (itl (set (map fst (class_data self)) - {lbl})))
            \<and> distinct (itl (set (map fst (class_data self)) - {lbl}))
            \<and> set (itl (set (map fst (class_data self)) - {lbl}))
                = set (map fst (class_data self)) - {lbl}
            \<and> other = it (class_of (class_data self) other_class)
                        ! (r2 mod length (it (class_of (class_data self) other_class)))
            \<and> distinct (it (class_of (class_data self) other_class))
            \<and> set (it (class_of (class_data self) other_class))
                = class_of (class_data self) other_class
            \<and> other_class \<in> set (map fst (class_data self)) \<and> other_class \<noteq> lbl
            \<and> other \<in> class_of (class_data self) other_class
            \<and> map_of (data self) other = Some other_item
            \<and> map_of other_item (label_key self) = Some other_class
            \<and> map_of other_item (data_key_left self) = Some v
            \<and> getitem it itl coerce u r1 r2 self index = (Inr item, self)
            \<and> item = AList.update (label_key self) (IntV 0)
                        (AList.update (data_key_right self) v base_item)
            \<and> map_of item (label_key self) = Some (IntV 0)
            \<and> map_of item (data_key_right self) = Some v
            \<and> map_of item (data_key_left self) = map_of base_item (data_key_left self)))
    \<and> (u < percent_matching_data self \<and> class_of (class_data self) lbl - {index} = {} \<longrightarrow>
         getitem it itl coerce u r1 r2 self index = (Inl ValueError, self))
    \<and> (\<not> u < percent_matching_data self \<and> set (map fst (class_data self)) - {lbl} = {} \<longrightarrow>
         getitem it itl coerce u r1 r2 self index = (Inl ValueError, self))"
proof (intro conjI impI)
  show "snd (getitem it itl coerce u r1 r2 self index) = self" by (rule getitem_snd)
next
  assume "u < percent_matching_data self \<and> class_of (class_data self) lbl - {index} \<noteq> {}"
  then show "\<exists>other other_item v item.
            other = it (class_of (class_data self) lbl - {index})
                      ! (r1 mod length (it (class_of (class_data self) lbl - {index})))
            \<and> distinct (it (class_of (class_data self) lbl - {index}))
            \<and> set (it (class_of (class_data self) lbl - {index}))
                = class_of (class_data self) lbl - {index}
            \<and> other \<in> class_of (class_data self) lbl \<and> other \<noteq> index
            \<and> map_of (data self) other = Some other_item
            \<and> map_of other_item (label_key self) = Some lbl
            \<and> map_of other_item (data_key_left self) = Some v
            \<and> getitem it itl coerce u r1 r2 self index = (Inr item, self)
            \<and> item = AList.update (label_key self) (IntV 1)
                        (AList.update (data_key_right self) v base_item)
            \<and> map_of item (label_key self) = Some (IntV 1)
            \<and> map_of item (data_key_right self) = Some v
            \<and> map_of item (data_key_left self) = map_of base_item (data_key_left self)"
    by (rule getitem_pair_match[OF wf idx lbl left keys it1])
next
  assume "\<not> u < percent_matching_data self \<and> set (map fst (class_data self)) - {lbl} \<noteq> {}"
  then show "\<exists>other_class other other_item v item.
            other_class = itl (set (map fst (class_data self)) - {lbl})
                            ! (r1 mod length (itl (set (map fst (class_data self)) - {lbl})))
            \<and> distinct (itl (set (map fst (class_data self)) - {lbl}))
            \<and> set (itl (set (map fst (class_data self)) - {lbl}))
                = set (map fst (class_data self)) - {lbl}
            \<and> other = it (class_of (class_data self) other_class)
                        ! (r2 mod length (it (class_of (class_data self) other_class)))
            \<and> distinct (it (class_of (class_data self) other_class))
            \<and> set (it (class_of (class_data self) other_class))
                = class_of (class_data self) other_class
            \<and> other_class \<in> set (map fst (class_data self)) \<and> other_class \<noteq> lbl
            \<and> other \<in> class_of (class_data self) other_class
            \<and> map_of (data self) other = Some other_item
            \<and> map_of other_item (label_key self) = Some other_class
            \<and> map_of other_item (data_key_left self) = Some v
            \<and> getitem it itl coerce u r1 r2 self index = (Inr item, self)
            \<and> item = AList.update (label_key self) (IntV 0)
                        (AList.update (data_key_right self) v base_item)
            \<and> map_of item (label_key self) = Some (IntV 0)
            \<and> map_of item (data_key_right self) = Some v
            \<and> map_of item (data_key_left self) = map_of base_item (data_key_left self)"
    by (rule getitem_pair_nonmatch[OF wf idx lbl left keys it2 itl np])
next
  assume "u < percent_matching_data self \<and> class_of (class_data self) lbl - {index} = {}"
  then show "getitem it itl coerce u r1 r2 self index = (Inl ValueError, self)"
    by (rule getitem_no_partner[OF wf idx lbl it1])
next
  assume "\<not> u < percent_matching_data self \<and> set (map fst (class_data self)) - {lbl} = {}"
  then show "getitem it itl coerce u r1 r2 self index = (Inl ValueError, self)"
    by (rule getitem_no_other_class[OF idx lbl itl])
qed

theorem getitem_pair_witness:
  "well_formed trio_ds
   \<and> py_getitem (data trio_ds) 1 = Inr [(''x_a'', StrV ''a1''), (''y'', IntV 0)]
   \<and> py_getitem [(''x_a'', StrV ''a1''), (''y'', IntV 0)] (label_key trio_ds) = Inr (IntV 0)
   \<and> list_all (\<lambda>kr. map_of (snd kr) (data_key_left trio_ds) \<noteq> None) (data trio_ds)
   \<and> data_key_left trio_ds \<noteq> data_key_right trio_ds
   \<and> data_key_left trio_ds \<noteq> label_key trio_ds
   \<and> data_key_right trio_ds \<noteq> label_key trio_ds
   \<and> lists_set sorted_list_of_set (class_of (class_data trio_ds) (IntV 0) - {1})
   \<and> list_all (\<lambda>ks. lists_set sorted_list_of_set (snd ks)) (class_data trio_ds)
   \<and> lists_set int_labels_sorted (set (map fst (class_data trio_ds)) - {IntV 0})
   \<and> np_keeps (map fst (class_data trio_ds))
   \<and> 1 / 4 < percent_matching_data trio_ds
   \<and> class_of (class_data trio_ds) (IntV 0) - {1} \<noteq> {}
   \<and> snd (getitem sorted_list_of_set int_labels_sorted id (1 / 4) 1 0 trio_ds 1) = trio_ds
   \<and> (\<exists>other item.
         other = sorted_list_of_set (class_of (class_data trio_ds) (IntV 0) - {1})
                   ! (1 mod length (sorted_list_of_set (class_of (class_data trio_ds) (IntV 0) - {1})))
         \<and> other \<in> class_of (class_data trio_ds) (IntV 0) \<and> other \<noteq> 1
         \<and> getitem sorted_list_of_set int_labels_sorted id (1 / 4) 1 0 trio_ds 1
             = (Inr item, trio_ds)
         \<and> map_of item (label_key trio_ds) = Some (IntV 1)
         \<and> map_of item (data_key_left trio_ds)
             = map_of [(''x_a'', StrV ''a1''), (''y'', IntV 0)] (data_key_left trio_ds))
   \<and> getitem sorted_list_of_set int_labels_sorted id (1 / 4) 1 0 trio_ds 1
       = (Inr [(''x_a'', StrV ''a1''), (''y'', IntV 1), (''x_b'', StrV ''a2'')], trio_ds)
   \<and> getitem sorted_list_of_set int_labels_sorted id (1 / 4) 0 0 trio_ds 1
       = (Inr [(''x_a'', StrV ''a1''), (''y'', IntV 1), (''x_b'', StrV ''a0'')], trio_ds)
   \<and> (3 / 4 < percent_matching_data trio_ds) = False
   \<and> set (map fst (class_data trio_ds)) - {IntV 0} \<noteq> {}
   \<and> (\<exists>other_class other item.
         other_class = int_labels_sorted (set (map fst (class_data trio_ds)) - {IntV 0})
                         ! (0 mod length (int_labels_sorted (set (map fst (class_data trio_ds)) - {IntV 0})))
         \<and> other = sorted_list_of_set (class_of (class_data trio_ds) other_class)
                     ! (1 mod length (sorted_list_of_set (class_of (class_data trio_ds) other_class)))
         \<and> other_class \<noteq> IntV 0
         \<and> other \<in> class_of (class_data trio_ds) other_class
         \<and> getitem sorted_list_of_set int_labels_sorted id (3 / 4) 0 1 trio_ds 1
             = (Inr item, trio_ds)
         \<and> map_of item (label_key trio_ds) = Some (IntV 0))
   \<and> getitem sorted_list_of_set int_labels_sorted id (3 / 4) 0 1 trio_ds 1
       = (Inr [(''x_a'', StrV ''a1''), (''y'', IntV 0), (''x_b'', StrV ''b1'')], trio_ds)
   \<and> getitem sorted_list_of_set int_labels_sorted id (3 / 4) 1 1 trio_ds 1
       = (Inr [(''x_a'', StrV ''a1''), (''y'', IntV 0), (''x_b'', StrV ''c0'')], trio_ds)
   \<and> py_getitem (data trio_ds) 5 = Inr [(''x_a'', StrV ''c0''), (''y'', IntV 2)]
   \<and> class_of (class_data trio_ds) (IntV 2) - {5} = {}
   \<and> getitem sorted_list_of_set int_labels_sorted id (1 / 4) 0 0 trio_ds 5
       = (Inl ValueError, trio_ds)"
proof -
  let ?base = "[(''x_a'', StrV ''a1''), (''y'', IntV 0)]"
  let ?base5 = "[(''x_a'', StrV ''c0''), (''y'', IntV 2)]"
  have w1: "well_formed trio_ds" by code_simp
  have w2: "py_getitem (data trio_ds) 1 = Inr ?base" by code_simp
  have w3: "py_getitem ?base (label_key trio_ds) = Inr (IntV 0)" by code_simp
  have w4: "list_all (\<lambda>kr. map_of (snd kr) (data_key_left trio_ds) \<noteq> None) (data trio_ds)"
    by code_simp
  then have w4': "\<forall>r\<in>snd ` set (data trio_ds). map_of r (data_key_left trio_ds) \<noteq> None"
    by (simp only: list_all_iff) blast
  have k1: "data_key_left trio_ds \<noteq> data_key_right trio_ds" by code_simp
  have k2: "data_key_left trio_ds \<noteq> label_key trio_ds" by code_simp
  have k3: "data_key_right trio_ds \<noteq> label_key trio_ds" by code_simp
  have w5: "lists_set sorted_list_of_set (class_of (class_data trio_ds) (IntV 0) - {1})"
    by code_simp
  have w6: "list_all (\<lambda>ks. lists_set sorted_list_of_set (snd ks)) (class_data trio_ds)"
    by code_simp
  then have w6': "\<forall>s\<in>snd ` set (class_data trio_ds). lists_set sorted_list_of_set s"
    by (simp only: list_all_iff) blast
  have w7: "lists_set int_labels_sorted (set (map fst (class_data trio_ds)) - {IntV 0})"
    by code_simp
  have w8: "np_keeps (map fst (class_data trio_ds))" by code_simp
  have m1: "1 / 4 < percent_matching_data trio_ds" by code_simp
  have m2: "class_of (class_data trio_ds) (IntV 0) - {1} \<noteq> {}" by code_simp
  have n1: "(3 / 4 < percent_matching_data trio_ds) = False" by code_simp
  then have n1': "\<not> 3 / 4 < percent_matching_data trio_ds" by (simp only: simp_thms)
  have n2: "set (map fst (class_data trio_ds)) - {IntV 0} \<noteq> {}" by code_simp
  have e1: "getitem sorted_list_of_set int_labels_sorted id (1 / 4) 1 0 trio_ds 1
       = (Inr [(''x_a'', StrV ''a1''), (''y'', IntV 1), (''x_b'', StrV ''a2'')], trio_ds)"
    by code_simp
  have e2: "getitem sorted_list_of_set int_labels_sorted id (1 / 4) 0 0 trio_ds 1
       = (Inr [(''x_a'', StrV ''a1''), (''y'', IntV 1), (''x_b'', StrV ''a0'')], trio_ds)"
    by code_simp
  have e3: "getitem sorted_list_of_set int_labels_sorted id (3 / 4) 0 1 trio_ds 1
       = (Inr [(''x_a'', StrV ''a1''), (''y'', IntV 0), (''x_b'', StrV ''b1'')], trio_ds)"
    by code_simp
  have e4: "getitem sorted_list_of_set int_labels_sorted id (3 / 4) 1 1 trio_ds 1
       = (Inr [(''x_a'', StrV ''a1''), (''y'', IntV 0), (''x_b'', StrV ''c0'')], trio_ds)"
    by code_simp
  note t = getitem_pair[OF w1 w2 w3 w4' k1 k2 k3 w5 w6' w7 w8, of id "1 / 4" 1 0]
  have c1: "snd (getitem sorted_list_of_set int_labels_sorted id (1 / 4) 1 0 trio_ds 1) = trio_ds"
    by (rule conjunct1[OF t])
  note ex = mp[OF conjunct1[OF conjunct2[OF t]] conjI[OF m1 m2]]
  have c2: "\<exists>other item.
         other = sorted_list_of_set (class_of (class_data trio_ds) (IntV 0) - {1})
                   ! (1 mod length (sorted_list_of_set (class_of (class_data trio_ds) (IntV 0) - {1})))
         \<and> other \<in> class_of (class_data trio_ds) (IntV 0) \<and> other \<noteq> 1
         \<and> getitem sorted_list_of_set int_labels_sorted id (1 / 4) 1 0 trio_ds 1
             = (Inr item, trio_ds)
         \<and> map_of item (label_key trio_ds) = Some (IntV 1)
         \<and> map_of item (data_key_left trio_ds) = map_of ?base (data_key_left trio_ds)"
    using ex
  proof (elim exE conjE)
    fix other other_item v item
    assume "other = sorted_list_of_set (class_of (class_data trio_ds) (IntV 0) - {1})
                   ! (1 mod length (sorted_list_of_set (class_of (class_data trio_ds) (IntV 0) - {1})))"
      "other \<in> class_of (class_data trio_ds) (IntV 0)" "other \<noteq> 1"
      "getitem sorted_list_of_set int_labels_sorted id (1 / 4) 1 0 trio_ds 1 = (Inr item, trio_ds)"
      "map_of item (label_key trio_ds) = Some (IntV 1)"
      "map_of item (data_key_left trio_ds) = map_of ?base (data_key_left trio_ds)"
    then show ?thesis by (intro exI[of _ other] exI[of _ item] conjI)
  qed
  note t' = getitem_pair[OF w1 w2 w3 w4' k1 k2 k3 w5 w6' w7 w8, of id "3 / 4" 0 1]
  note ex' = mp[OF conjunct1[OF conjunct2[OF conjunct2[OF t']]] conjI[OF n1' n2]]
  have c3: "\<exists>other_class other item.
         other_class = int_labels_sorted (set (map fst (class_data trio_ds)) - {IntV 0})
                         ! (0 mod length (int_labels_sorted (set (map fst (class_data trio_ds)) - {IntV 0})))
         \<and> other = sorted_list_of_set (class_of (class_data trio_ds) other_class)
                     ! (1 mod length (sorted_list_of_set (class_of (class_data trio_ds) other_class)))
         \<and> other_class \<noteq> IntV 0
         \<and> other \<in> class_of (class_data trio_ds) other_class
         \<and> getitem sorted_list_of_set int_labels_sorted id (3 / 4) 0 1 trio_ds 1
             = (Inr item, trio_ds)
         \<and> map_of item (label_key trio_ds) = Some (IntV 0)"
    using ex'
  proof (elim exE conjE)
    fix other_class other other_item v item
    assume "other_class = int_labels_sorted (set (map fst (class_data trio_ds)) - {IntV 0})
                         ! (0 mod length (int_labels_sorted (set (map fst (class_data trio_ds)) - {IntV 0})))"
      "other = sorted_list_of_set (class_of (class_data trio_ds) other_class)
                     ! (1 mod length (sorted_list_of_set (class_of (class_data trio_ds) other_class)))"
      "other_class \<noteq> IntV 0"
      "other \<in> class_of (class_data trio_ds) other_class"
      "getitem sorted_list_of_set int_labels_sorted id (3 / 4) 0 1 trio_ds 1 = (Inr item, trio_ds)"
      "map_of item (label_key trio_ds) = Some (IntV 0)"
    then show ?thesis by (intro exI[of _ other_class] exI[of _ other] exI[of _ item] conjI)
  qed
  have v2: "py_getitem (data trio_ds) 5 = Inr ?base5" by code_simp
  have v3: "py_getitem ?base5 (label_key trio_ds) = Inr (IntV 2)" by code_simp
  have v5: "lists_set sorted_list_of_set (class_of (class_data trio_ds) (IntV 2) - {5})"
    by code_simp
  have v7: "lists_set int_labels_sorted (set (map fst (class_data trio_ds)) - {IntV 2})"
    by code_simp
  have s2: "class_of (class_data trio_ds) (IntV 2) - {5} = {}" by code_simp
  note t5 = getitem_pair[OF w1 v2 v3 w4' k1 k2 k3 v5 w6' v7 w8, of id "1 / 4" 0 0]
  have c5: "getitem sorted_list_of_set int_labels_sorted id (1 / 4) 0 0 trio_ds 5
       = (Inl ValueError, trio_ds)"
    by (rule mp[OF conjunct1[OF conjunct2[OF conjunct2[OF conjunct2[OF t5]]]] conjI[OF m1 s2]])
  from w1 w2 w3 w4 k1 k2 k3 w5 w6 w7 w8 m1 m2 c1 c2 e1 e2 n1 n2 c3 e3 e4 v2 s2 c5
  show ?thesis by (intro conjI)
qed

text \<open>
  Claim C7 as stated fails: item access does not return a pair at every valid index.
  At the index of a record that is alone in its class it raises \<open>ValueError\<close> when the
  same-class branch is taken, and in a dataset of one class it raises \<open>ValueError\<close>
  when the other branch is taken.
\<close>

theorem getitem_pair_counterexample:
  "well_formed pairs_ds
   \<and> py_getitem (data pairs_ds) 3 = Inr [(''x_a'', StrV ''c0''), (''y'', IntV 2)]
   \<and> 1 / 4 < percent_matching_data pairs_ds
   \<and> getitem sorted_list_of_set int_labels_sorted id (1 / 4) 0 0 pairs_ds 3
       = (Inl ValueError, pairs_ds)
   \<and> well_formed (example_dataset [0, 0])
   \<and> py_getitem (data (example_dataset [0, 0])) 0 = Inr [(''x_a'', StrV ''file''), (''y'', IntV 0)]
   \<and> (3 / 4 < percent_matching_data (example_dataset [0, 0])) = False
   \<and> getitem sorted_list_of_set int_labels_sorted id (3 / 4) 0 0 (example_dataset [0, 0]) 0
       = (Inl ValueError, example_dataset [0, 0])"
  by code_simp


end
